theory Spec2Isabelle
  imports Complex_Main "HOL-Library.Word"
begin

section \<open>Go run-time behaviour shared by the packages\<close>

text \<open>
  A Go panic ends the goroutine; every function that can panic returns a value of
  \<open>panic + 'a\<close>, with \<open>Inl\<close> for the panic.  Go's \<open>int\<close> and \<open>int64\<close> are 64 bits wide;
  the queue indices and sizes below would need about \<open>2 ^ 63\<close> pushes to wrap, so they
  are modelled as unbounded integers.
\<close>

datatype panic = IndexOutOfRange | DivideByZero | NegativeLen | CloseOfClosedChannel

text \<open>Go's \<open>/\<close> and \<open>%\<close> on integers truncate towards zero and panic on a zero divisor.\<close>

definition go_quot :: "int \<Rightarrow> int \<Rightarrow> int" where
  "go_quot a b = sgn a * sgn b * (\<bar>a\<bar> div \<bar>b\<bar>)"

definition go_rem :: "int \<Rightarrow> int \<Rightarrow> int" where
  "go_rem a b = sgn a * (\<bar>a\<bar> mod \<bar>b\<bar>)"

text \<open>
  Arithmetic on Go's 64-bit \<open>int\<close> wraps around: \<open>wrap64\<close> is the two's complement
  value of an integer.  It is written out in the sharding and image functions below, whose
  arguments come from the command line and from files.
\<close>

definition wrap64 :: "int \<Rightarrow> int" where
  "wrap64 x = (x + 2 ^ 63) mod 2 ^ 64 - 2 ^ 63"

text \<open>Reading and writing a slice element: out of range panics.\<close>

definition slice_get :: "'a list \<Rightarrow> int \<Rightarrow> panic + 'a" where
  "slice_get xs i =
     (if 0 \<le> i \<and> i < int (length xs) then Inr (xs ! nat i) else Inl IndexOutOfRange)"

definition slice_set :: "'a list \<Rightarrow> int \<Rightarrow> 'a \<Rightarrow> panic + 'a list" where
  "slice_set xs i v =
     (if 0 \<le> i \<and> i < int (length xs) then Inr (xs[nat i := v]) else Inl IndexOutOfRange)"

section \<open>WorkStealing/CircularArray.go\<close>

text \<open>
  A \<open>Runnable\<close> slot is \<open>None\<close> for the nil interface and \<open>Some t\<close> for a task.
  \<open>logCapacity\<close> is a natural number: a negative shift count panics in Go, so no
  array with a negative \<open>logCapacity\<close> exists.
\<close>

record 't CircularArray =
  logCapacity :: nat
  tasks :: "'t option list"

definition NewCircularArray :: "nat \<Rightarrow> 't CircularArray" where
  "NewCircularArray k = \<lparr>logCapacity = k, tasks = replicate (2 ^ k) None\<rparr>"

definition GetCapacity :: "'t CircularArray \<Rightarrow> int" where
  "GetCapacity c = 2 ^ logCapacity c"

definition GetTask :: "'t CircularArray \<Rightarrow> int \<Rightarrow> panic + 't option" where
  "GetTask c i = slice_get (tasks c) (go_rem i (GetCapacity c))"

definition PutTask :: "'t CircularArray \<Rightarrow> int \<Rightarrow> 't option \<Rightarrow> panic + 't CircularArray" where
  "PutTask c i task =
     (case slice_set (tasks c) (go_rem i (GetCapacity c)) task of
        Inl e \<Rightarrow> Inl e
      | Inr ts \<Rightarrow> Inr (c\<lparr>tasks := ts\<rparr>))"

text \<open>The copy loop of \<open>Resize\<close>: \<open>for i := top; i < bottom; i++\<close>.\<close>

function Resize_loop ::
  "'t CircularArray \<Rightarrow> 't CircularArray \<Rightarrow> int \<Rightarrow> int \<Rightarrow> panic + 't CircularArray" where
  "Resize_loop c newCArray i bottom =
     (if i < bottom then
        (case GetTask c i of
           Inl e \<Rightarrow> Inl e
         | Inr t \<Rightarrow>
             (case PutTask newCArray i t of
                Inl e \<Rightarrow> Inl e
              | Inr n \<Rightarrow> Resize_loop c n (i + 1) bottom))
      else Inr newCArray)"
  by pat_completeness auto
termination
  by (relation "measure (\<lambda>(c, n, i, bottom). nat (bottom - i))") auto

declare Resize_loop.simps [simp del]

text \<open>\<open>func (c *CircularArray) Resize(bottom, top int)\<close>: the parameters in the source's order
  (\<open>top'\<close> for \<open>top\<close>, a constant of HOL).\<close>

definition Resize :: "'t CircularArray \<Rightarrow> int \<Rightarrow> int \<Rightarrow> panic + 't CircularArray" where
  "Resize c bottom top' = Resize_loop c (NewCircularArray (logCapacity c + 1)) top' bottom"

section \<open>WorkStealing/UDEqueue.go\<close>

text \<open>
  The queue as its owner sees it when no thief runs: the atomic operations are the plain
  reads and writes they perform.  The fields carry the suffix \<open>_q\<close> (\<open>top\<close> is a
  constant of HOL, \<open>tasks\<close> a field of the array).
\<close>

record 't UDEqueue =
  tasks_q :: "'t CircularArray"
  bottom_q :: int
  top_q :: int

definition NewUDEqueue :: "nat \<Rightarrow> 't UDEqueue" where
  "NewUDEqueue initialLogCapacity =
     \<lparr>tasks_q = NewCircularArray initialLogCapacity, bottom_q = 0, top_q = 0\<rparr>"

definition IsEmpty :: "'t UDEqueue \<Rightarrow> bool" where
  "IsEmpty u = (let oldTop = top_q u in bottom_q u \<le> oldTop)"

text \<open>\<open>atomic.CompareAndSwapInt64\<close> on a value: whether it swapped, and the value left.\<close>

definition CompareAndSwapInt64 :: "int \<Rightarrow> int \<Rightarrow> int \<Rightarrow> bool \<times> int" where
  "CompareAndSwapInt64 cur old new = (if cur = old then (True, new) else (False, cur))"

text \<open>
  \<open>pushBottom\<close> calls \<open>tasks.Resize(int(oldTop), int(u.bottom))\<close>: \<open>oldTop\<close> is passed
  for the parameter \<open>bottom\<close> and \<open>u.bottom\<close> for the parameter \<open>top\<close>.
\<close>

definition pushBottom :: "'t UDEqueue \<Rightarrow> 't option \<Rightarrow> panic + 't UDEqueue" where
  "pushBottom u task =
     (let oldTop = top_q u;
          size = bottom_q u - oldTop;
          tasks = tasks_q u
      in case (if size \<ge> GetCapacity tasks - 1
               then (case Resize tasks oldTop (bottom_q u) of
                       Inl e \<Rightarrow> Inl e
                     | Inr n \<Rightarrow> Inr (u\<lparr>tasks_q := n\<rparr>))
               else Inr u) of
           Inl e \<Rightarrow> Inl e
         | Inr u1 \<Rightarrow>
             (case PutTask (tasks_q u1) (bottom_q u1) task of
                Inl e \<Rightarrow> Inl e
              | Inr c \<Rightarrow> Inr (u1\<lparr>tasks_q := c, bottom_q := bottom_q u1 + 1\<rparr>)))"

definition popBottom :: "'t UDEqueue \<Rightarrow> panic + ('t option \<times> 't UDEqueue)" where
  "popBottom u =
     (let u1 = u\<lparr>bottom_q := bottom_q u - 1\<rparr>;
          oldTop = top_q u1;
          size = bottom_q u1 - oldTop
      in if size < 0 then Inr (None, u1\<lparr>bottom_q := oldTop\<rparr>)
         else
           (case GetTask (tasks_q u1) (bottom_q u1) of
              Inl e \<Rightarrow> Inl e
            | Inr task \<Rightarrow>
                if size > 0 then Inr (task, u1)
                else
                  (case CompareAndSwapInt64 (top_q u1) oldTop (oldTop + 1) of
                     (True, t) \<Rightarrow> Inr (task, u1\<lparr>top_q := t\<rparr>)
                   | (False, t) \<Rightarrow> Inr (None, u1\<lparr>top_q := t, bottom_q := oldTop + 1\<rparr>))))"

text \<open>The buffer of a queue has as many slots as its capacity says.\<close>

definition wf_array :: "'t CircularArray \<Rightarrow> bool" where
  "wf_array c = (int (length (tasks c)) = GetCapacity c)"

text \<open>
  Sequences of owner operations on one queue: \<open>push_all\<close> pushes the tasks of a list in
  order, \<open>pop_n\<close> calls \<open>popBottom\<close> \<open>n\<close> times and collects what the calls return,
  \<open>run_ops\<close> runs any mix of the two and lists the state after every operation.
\<close>

fun push_all :: "'t UDEqueue \<Rightarrow> 't list \<Rightarrow> panic + 't UDEqueue" where
  "push_all u [] = Inr u"
| "push_all u (t # ts) =
     (case pushBottom u (Some t) of Inl e \<Rightarrow> Inl e | Inr u1 \<Rightarrow> push_all u1 ts)"

fun pop_n :: "nat \<Rightarrow> 't UDEqueue \<Rightarrow> panic + ('t option list \<times> 't UDEqueue)" where
  "pop_n 0 u = Inr ([], u)"
| "pop_n (Suc n) u =
     (case popBottom u of
        Inl e \<Rightarrow> Inl e
      | Inr (r, u1) \<Rightarrow>
          (case pop_n n u1 of Inl e \<Rightarrow> Inl e | Inr (rs, u2) \<Rightarrow> Inr (r # rs, u2)))"

datatype 't owner_op = PushBottom 't | PopBottom

fun run_op :: "'t UDEqueue \<Rightarrow> 't owner_op \<Rightarrow> panic + 't UDEqueue" where
  "run_op u (PushBottom t) = pushBottom u (Some t)"
| "run_op u PopBottom = (case popBottom u of Inl e \<Rightarrow> Inl e | Inr (r, u1) \<Rightarrow> Inr u1)"

fun run_ops :: "'t UDEqueue \<Rightarrow> 't owner_op list \<Rightarrow> panic + 't UDEqueue list" where
  "run_ops u [] = Inr []"
| "run_ops u (x # xs) =
     (case run_op u x of
        Inl e \<Rightarrow> Inl e
      | Inr u1 \<Rightarrow> (case run_ops u1 xs of Inl e \<Rightarrow> Inl e | Inr us \<Rightarrow> Inr (u1 # us)))"

text \<open>The logical size of the queue and the bound the queue keeps on it.\<close>

definition logical_size :: "'t UDEqueue \<Rightarrow> int" where
  "logical_size u = bottom_q u - top_q u"

definition size_bounded :: "'t UDEqueue \<Rightarrow> bool" where
  "size_bounded u = (logical_size u \<le> GetCapacity (tasks_q u) - 1)"

text \<open>
  What every state of a queue run by its owner alone satisfies: the buffer is well formed,
  \<open>top\<close> has not gone below 0, \<open>bottom\<close> is at most one below \<open>top\<close> and not negative,
  and the size is bounded.
\<close>

definition queue_inv :: "'t UDEqueue \<Rightarrow> bool" where
  "queue_inv u =
     (wf_array (tasks_q u) \<and> 0 \<le> top_q u \<and> 0 \<le> bottom_q u \<and> top_q u - 1 \<le> bottom_q u
      \<and> size_bounded u)"

section \<open>png: images and effects\<close>

text \<open>Points and rectangles of Go's \<open>image\<close> package (\<open>Min\<close> and \<open>Max\<close> are constants of HOL).\<close>

record Point =
  X :: int
  Y :: int

record Rectangle =
  Min_pt :: Point
  Max_pt :: Point



definition In_rect :: "int \<Rightarrow> int \<Rightarrow> Rectangle \<Rightarrow> bool" where
  "In_rect x y r =
     (X (Min_pt r) \<le> x \<and> x < X (Max_pt r) \<and> Y (Min_pt r) \<le> y \<and> y < Y (Max_pt r))"

text \<open>
  \<open>color.RGBA64\<close> has four 16-bit channels; its method \<open>RGBA\<close> returns them widened to
  \<open>uint32\<close>.  An \<open>image.RGBA64\<close> is its rectangle and its pixels, addressed by
  coordinates (the byte layout of \<open>Pix\<close> and \<open>Stride\<close> is not modelled): \<open>At\<close> outside
  the rectangle is the zero colour and \<open>Set\<close> outside the rectangle does nothing.
\<close>

type_synonym uint16 = "16 word"
type_synonym uint32 = "32 word"

record color_RGBA64 =
  R :: uint16
  G :: uint16
  B :: uint16
  A :: uint16

definition RGBA :: "color_RGBA64 \<Rightarrow> uint32 \<times> uint32 \<times> uint32 \<times> uint32" where
  "RGBA c = (ucast (R c), ucast (G c), ucast (B c), ucast (A c))"

record image_RGBA64 =
  Pix :: "int \<times> int \<Rightarrow> color_RGBA64"
  Rect :: Rectangle

definition At :: "image_RGBA64 \<Rightarrow> int \<Rightarrow> int \<Rightarrow> color_RGBA64" where
  "At p x y = (if In_rect x y (Rect p) then Pix p (x, y) else \<lparr>R = 0, G = 0, B = 0, A = 0\<rparr>)"

definition Set_px :: "image_RGBA64 \<Rightarrow> int \<Rightarrow> int \<Rightarrow> color_RGBA64 \<Rightarrow> image_RGBA64" where
  "Set_px p x y c = (if In_rect x y (Rect p) then p\<lparr>Pix := (Pix p)((x, y) := c)\<rparr> else p)"

text \<open>
  \<open>Image\<close>: the two buffers \<open>in\<close> and \<open>out\<close> (\<open>in\<close> is a keyword of Isabelle), the
  bounds and the flag \<open>Final\<close>.
\<close>

record Image =
  in_px :: image_RGBA64
  out_px :: image_RGBA64
  Bounds :: Rectangle
  Final :: int

definition GetInputOutputPixels :: "Image \<Rightarrow> image_RGBA64 \<times> image_RGBA64" where
  "GetInputOutputPixels im =
     (if Final im = 0 then (in_px im, out_px im) else (out_px im, in_px im))"

text \<open>
  The effects write through the pointer \<open>outputPixels\<close> that \<open>GetInputOutputPixels\<close>
  returned: \<open>img.out\<close> when \<open>Final\<close> is 0, \<open>img.in\<close> otherwise.
\<close>

definition put_output :: "Image \<Rightarrow> image_RGBA64 \<Rightarrow> Image" where
  "put_output im p = (if Final im = 0 then im\<lparr>out_px := p\<rparr> else im\<lparr>in_px := p\<rparr>)"

text \<open>
  \<open>clamp\<close>: \<open>uint16(math.Min(65535, math.Max(0, comp)))\<close>, the conversion truncating a
  value between 0 and 65535.  \<open>float64\<close> is modelled by the reals; for the grey value
  \<open>float64(r+g+b) / 3\<close> the sum of three 16-bit channels is below \<open>2 ^ 18\<close>, its
  conversion is exact and the rounded quotient has the same integer part as the exact one.
\<close>

definition clamp :: "real \<Rightarrow> uint16" where
  "clamp comp' = word_of_int \<lfloor>min 65535 (max 0 comp')\<rfloor>"

definition Grayscale_pixel :: "color_RGBA64 \<Rightarrow> color_RGBA64" where
  "Grayscale_pixel c =
     (case RGBA c of
        (r, g, b, a) \<Rightarrow>
          let greyC = clamp (real (unat (r + g + b)) / 3)
          in \<lparr>R = greyC, G = greyC, B = greyC, A = ucast a\<rparr>)"

text \<open>
  The two loops of \<open>Grayscale\<close>, over the columns of a row and over the rows.  The
  counters stay below \<open>XEnd\<close> and \<open>YEnd\<close>, so \<open>x + 1\<close> and \<open>y + 1\<close> do not wrap.
\<close>

function Grayscale_cols ::
  "image_RGBA64 \<Rightarrow> image_RGBA64 \<Rightarrow> int \<Rightarrow> int \<Rightarrow> int \<Rightarrow> image_RGBA64" where
  "Grayscale_cols inputPixels outputPixels y x xEnd =
     (if x < xEnd then
        Grayscale_cols inputPixels
          (Set_px outputPixels x y (Grayscale_pixel (At inputPixels x y))) y (x + 1) xEnd
      else outputPixels)"
  by pat_completeness auto
termination
  by (relation "measure (\<lambda>(i, out, y, x, xEnd). nat (xEnd - x))") auto

function Grayscale_rows ::
  "image_RGBA64 \<Rightarrow> image_RGBA64 \<Rightarrow> int \<Rightarrow> int \<Rightarrow> int \<Rightarrow> int \<Rightarrow> image_RGBA64" where
  "Grayscale_rows inputPixels outputPixels y yEnd xStart xEnd =
     (if y < yEnd then
        Grayscale_rows inputPixels (Grayscale_cols inputPixels outputPixels y xStart xEnd)
          (y + 1) yEnd xStart xEnd
      else outputPixels)"
  by pat_completeness auto
termination
  by (relation "measure (\<lambda>(i, out, y, yEnd, xs, xe). nat (yEnd - y))") auto

declare Grayscale_cols.simps [simp del]
declare Grayscale_rows.simps [simp del]

definition Grayscale ::
  "image_RGBA64 \<Rightarrow> image_RGBA64 \<Rightarrow> int \<Rightarrow> int \<Rightarrow> int \<Rightarrow> int \<Rightarrow> image_RGBA64" where
  "Grayscale inputPixels outputPixels yStart yEnd xStart xEnd =
     Grayscale_rows inputPixels outputPixels yStart yEnd xStart xEnd"

text \<open>
  A kernel; \<open>nil\<close> (grayscale) is \<open>None\<close>.  The table \<open>effects\<close> holds the three
  convolution kernels, an unknown code reads the empty slice.  \<open>size\<close> is a constant of HOL and
  \<open>values\<close> a keyword of Isabelle.
\<close>

record Kernel =
  values_k :: "real list"
  size_k :: int
  dim :: int
  center :: int

definition effects :: "string \<Rightarrow> real list" where
  "effects e =
     (if e = ''S'' then [0, -1, 0, -1, 5, -1, 0, -1, 0]
      else if e = ''E'' then [-1, -1, -1, -1, 8, -1, -1, -1, -1]
      else if e = ''B'' then [1/9, 1/9, 1/9, 1/9, 1/9, 1/9, 1/9, 1/9, 1/9]
      else [])"

definition NewKernel :: "string \<Rightarrow> Kernel option" where
  "NewKernel effect =
     (if effect = ''G'' then None
      else
        let vs = effects effect;
            sz = int (length vs);
            d = \<lfloor>sqrt (real_of_int sz)\<rfloor>
        in Some \<lparr>values_k = vs, size_k = sz, dim = d, center = go_quot d 2\<rparr>)"

definition CreateKernels :: "string list \<Rightarrow> Kernel option list" where
  "CreateKernels es = map NewKernel es"

text \<open>
  \<open>ApplyEffect\<close>.  The convolution \<open>ConvolveFlat\<close> sums products of \<open>float64\<close> values,
  which are not modelled: it is the parameter \<open>conv\<close>, a function from the kernel, the two
  buffers and the region to the output buffer it leaves.
\<close>

type_synonym convolve =
  "Kernel \<Rightarrow> image_RGBA64 \<Rightarrow> image_RGBA64 \<Rightarrow> int \<Rightarrow> int \<Rightarrow> int \<Rightarrow> int \<Rightarrow> image_RGBA64"

definition ApplyEffect :: "convolve \<Rightarrow> Image \<Rightarrow> Kernel option \<Rightarrow> Image" where
  "ApplyEffect conv img kernel' =
     (case GetInputOutputPixels img of
        (inputPixels, outputPixels) \<Rightarrow>
          let bounds = Rect inputPixels
          in put_output img
               (case kernel' of
                  None \<Rightarrow>
                    Grayscale inputPixels outputPixels
                      (Y (Min_pt bounds)) (Y (Max_pt bounds)) (X (Min_pt bounds)) (X (Max_pt bounds))
                | Some k \<Rightarrow>
                    conv k inputPixels outputPixels
                      (Y (Min_pt bounds)) (Y (Max_pt bounds)) (X (Min_pt bounds)) (X (Max_pt bounds))))"

text \<open>\<open>applyOneThread\<close> of scheduler/pipeutils.go: \<open>for _, kernel := range kernels\<close>.\<close>

fun applyOneThread :: "convolve \<Rightarrow> Image \<Rightarrow> Kernel option list \<Rightarrow> Image" where
  "applyOneThread conv img [] = img"
| "applyOneThread conv img (kernel' # kernels) =
     (let img1 = ApplyEffect conv img kernel';
          img2 = img1\<lparr>Final := wrap64 (1 - Final img1)\<rparr>
      in applyOneThread conv img2 kernels)"

text \<open>\<open>Save\<close> encodes \<open>img.in\<close> when \<open>Final\<close> is 0 and \<open>img.out\<close> otherwise.\<close>

definition Save_pixels :: "Image \<Rightarrow> image_RGBA64" where
  "Save_pixels img = (if Final img = 0 then in_px img else out_px img)"

section \<open>scheduler/pipeutils.go and scheduler/parslices.go: sharding\<close>

text \<open>
  \<open>ChunksOfTasks\<close>.  The loop \<open>for i := 1; i <= nChunks; i++\<close> writes \<open>indexes[i]\<close>
  with \<open>i\<close> below the length \<open>nChunks + 1\<close> of the slice; it runs only when that length
  did not wrap, so \<open>i + 1\<close> does not wrap either.  \<open>make\<close> panics on a negative length
  (the limits of the allocator are not modelled).
\<close>

function ChunksOfTasks_loop :: "int list \<Rightarrow> int \<Rightarrow> int \<Rightarrow> int \<Rightarrow> int \<Rightarrow> int list" where
  "ChunksOfTasks_loop indexes i nChunks numTasks chunkSize =
     (if i \<le> nChunks then
        ChunksOfTasks_loop
          (if i = nChunks then indexes[nat i := numTasks]
           else indexes[nat i := wrap64 (i * chunkSize)])
          (i + 1) nChunks numTasks chunkSize
      else indexes)"
  by pat_completeness auto
termination
  by (relation "measure (\<lambda>(ix, i, nChunks, n, c). nat (nChunks + 1 - i))") auto

declare ChunksOfTasks_loop.simps [simp del]

definition ChunksOfTasks :: "int \<Rightarrow> int \<Rightarrow> panic + int list" where
  "ChunksOfTasks numTasks chunkSize =
     (if chunkSize = 0 then Inl DivideByZero
      else
        let nChunks = wrap64 (go_quot (wrap64 (numTasks + chunkSize - 1)) chunkSize) in
        if wrap64 (nChunks + 1) < 0 then Inl NegativeLen
        else
          (case slice_set (replicate (nat (wrap64 (nChunks + 1))) 0) 0 0 of
             Inl e \<Rightarrow> Inl e
           | Inr indexes \<Rightarrow> Inr (ChunksOfTasks_loop indexes 1 nChunks numTasks chunkSize)))"









section \<open>utils: the task list\<close>

text \<open>
  A process that ends in \<open>os.Exit\<close> is \<open>Exit\<close> with the code, a call that returns is
  \<open>Return\<close>.  The effects file as \<open>CreateTasks\<close> meets it: \<open>os.Open\<close> fails with an
  error, or gives a file from which the JSON decoder reads some tasks and then, the file
  being finite, fails with an error whose text is \<open>final_err\<close> (\<open>EOF\<close> at the end of the
  file).  The paths \<open>InDir\<close> and \<open>OutDir\<close> of the package constants are parameters.
\<close>

datatype 'a outcome = Exit int | Return 'a

record Task =
  InPath :: string
  OutPath :: string
  Effects :: "string list"

record effects_file =
  decoded :: "Task list"
  final_err :: string

text \<open>\<open>strings.Split\<close> for a separator of one character.\<close>

fun Split :: "string \<Rightarrow> char \<Rightarrow> string list" where
  "Split [] sep = [[]]"
| "Split (c # cs) sep =
     (if c = sep then [] # Split cs sep
      else (case Split cs sep of [] \<Rightarrow> [[c]] | w # ws \<Rightarrow> (c # w) # ws))"

definition newTask :: "string \<Rightarrow> string \<Rightarrow> Task \<Rightarrow> string \<Rightarrow> Task" where
  "newTask InDir OutDir task dir =
     \<lparr>InPath = InDir @ ''/'' @ dir @ ''/'' @ InPath task,
      OutPath = OutDir @ ''/'' @ dir @ ''_'' @ OutPath task,
      Effects = Effects task\<rparr>"

fun CreateTasks_loop ::
  "string \<Rightarrow> string \<Rightarrow> string list \<Rightarrow> Task list \<Rightarrow> string \<Rightarrow> Task list \<Rightarrow> Task list outcome" where
  "CreateTasks_loop InDir OutDir dirs [] err tqueue =
     (if err = ''EOF'' then Return tqueue else Exit 1)"
| "CreateTasks_loop InDir OutDir dirs (task # rest) err tqueue =
     CreateTasks_loop InDir OutDir dirs rest err
       (tqueue @ map (newTask InDir OutDir task) dirs)"

definition CreateTasks ::
  "string \<Rightarrow> string \<Rightarrow> string + effects_file \<Rightarrow> string \<Rightarrow> Task list outcome" where
  "CreateTasks InDir OutDir opened dataDirs =
     (case opened of
        Inl err \<Rightarrow> Exit 1
      | Inr effectsFile \<Rightarrow>
          CreateTasks_loop InDir OutDir (Split dataDirs CHR ''+'')
            (decoded effectsFile) (final_err effectsFile) [])"

section \<open>scheduler: the pipeline driver and its workers' stop channels\<close>

text \<open>
  Channels are allocated from a store that numbers them; the store records which ones
  are closed.  Closing a closed channel panics.
\<close>

record chan_store =
  next_chan :: nat
  closed :: "nat list"

definition make_chan :: "chan_store \<Rightarrow> nat \<times> chan_store" where
  "make_chan s = (next_chan s, s\<lparr>next_chan := Suc (next_chan s)\<rparr>)"

definition close_chan :: "chan_store \<Rightarrow> nat \<Rightarrow> panic + chan_store" where
  "close_chan s c =
     (if c \<in> set (closed s) then Inl CloseOfClosedChannel
      else Inr (s\<lparr>closed := c # closed s\<rparr>))"

text \<open>
  \<open>PipeWorker\<close>: the work-stealing worker (its id), its share of the tasks and its own
  channel \<open>done\<close> (a keyword of Isabelle).  \<open>Worker.Run\<close> and \<open>Worker.RunNoWs\<close> return
  from their \<open>select\<close> only on \<open>case <- done\<close>.
\<close>

record PipeWorker =
  worker :: nat
  numTasks :: int
  done_ch :: nat

fun PrepareWorkers_loop ::
  "nat list \<Rightarrow> int \<Rightarrow> int \<Rightarrow> int \<Rightarrow> chan_store \<Rightarrow> PipeWorker list \<times> chan_store" where
  "PrepareWorkers_loop [] nWorkers tasksPerWorker remainder s = ([], s)"
| "PrepareWorkers_loop (i # is) nWorkers tasksPerWorker remainder s =
     (case make_chan s of
        (ch, s1) \<Rightarrow>
          let w = (if int i \<noteq> nWorkers - 1
                   then \<lparr>worker = i, numTasks = tasksPerWorker, done_ch = ch\<rparr>
                   else \<lparr>worker = i, numTasks = wrap64 (tasksPerWorker + remainder), done_ch = ch\<rparr>)
          in (case PrepareWorkers_loop is nWorkers tasksPerWorker remainder s1 of
                (ws, s2) \<Rightarrow> (w # ws, s2)))"

definition PrepareWorkers :: "int \<Rightarrow> int \<Rightarrow> chan_store \<Rightarrow> panic + (PipeWorker list \<times> chan_store)" where
  "PrepareWorkers nWorkers nTasks s =
     (if nWorkers < 0 then Inl NegativeLen
      else if nWorkers = 0 then Inl DivideByZero
      else
        let tasksPerWorker = wrap64 (go_quot nTasks nWorkers);
            remainder = go_rem nTasks nWorkers
        in Inr (PrepareWorkers_loop [0 ..< nat nWorkers] nWorkers tasksPerWorker remainder s))"

text \<open>\<open>NewPipeContext\<close>: one channel for every phase.\<close>

fun NewPipeContext :: "nat \<Rightarrow> chan_store \<Rightarrow> nat list \<times> chan_store" where
  "NewPipeContext 0 s = ([], s)"
| "NewPipeContext (Suc n) s =
     (case make_chan s of
        (ch, s1) \<Rightarrow> (case NewPipeContext n s1 of (chs, s2) \<Rightarrow> (ch # chs, s2)))"

fun PrepareWorkers_phases ::
  "nat \<Rightarrow> int \<Rightarrow> int \<Rightarrow> chan_store \<Rightarrow> panic + (PipeWorker list list \<times> chan_store)" where
  "PrepareWorkers_phases 0 nThreads nTasks s = Inr ([], s)"
| "PrepareWorkers_phases (Suc n) nThreads nTasks s =
     (case PrepareWorkers nThreads nTasks s of
        Inl e \<Rightarrow> Inl e
      | Inr (ws, s1) \<Rightarrow>
          (case PrepareWorkers_phases n nThreads nTasks s1 of
             Inl e \<Rightarrow> Inl e
           | Inr (wss, s2) \<Rightarrow> Inr (ws # wss, s2)))"

text \<open>
  The last loop of \<open>RunPipeBSPWS\<close>, \<open>for i, wg := range pipeCtx.wgs\<close>, once every
  \<open>wg.Wait()\<close> has returned: for \<open>i < len(pipeCtx.wgs) - 1\<close> it closes
  \<open>pipeCtx.channels[i+1]\<close> and \<open>pipeWorkers[i][0].done\<close>.
\<close>

fun shutdown_loop ::
  "nat list \<Rightarrow> nat \<Rightarrow> nat list \<Rightarrow> PipeWorker list list \<Rightarrow> chan_store \<Rightarrow> panic + chan_store" where
  "shutdown_loop [] nPhases channels pipeWorkers s = Inr s"
| "shutdown_loop (i # is) nPhases channels pipeWorkers s =
     (if int i < int nPhases - 1 then
        (case slice_get channels (int i + 1) of
           Inl e \<Rightarrow> Inl e
         | Inr ch \<Rightarrow>
             (case close_chan s ch of
                Inl e \<Rightarrow> Inl e
              | Inr s1 \<Rightarrow>
                  (case slice_get pipeWorkers (int i) of
                     Inl e \<Rightarrow> Inl e
                   | Inr ws \<Rightarrow>
                       (case slice_get ws 0 of
                          Inl e \<Rightarrow> Inl e
                        | Inr w \<Rightarrow>
                            (case close_chan s1 (done_ch w) of
                               Inl e \<Rightarrow> Inl e
                             | Inr s2 \<Rightarrow> shutdown_loop is nPhases channels pipeWorkers s2)))))
      else shutdown_loop is nPhases channels pipeWorkers s)"

text \<open>
  One chunk of \<open>RunPipeBSPWS\<close> as far as channels go: the context, the workers of every
  phase, \<open>close(pipeCtx.channels[0])\<close> and the last loop.  \<open>PipePhases\<close> is a constant of
  the package \<open>constants\<close>, a parameter here.
\<close>

definition RunPipeBSPWS_chunk ::
  "nat \<Rightarrow> int \<Rightarrow> int \<Rightarrow> chan_store \<Rightarrow> panic + (PipeWorker list list \<times> chan_store)" where
  "RunPipeBSPWS_chunk PipePhases nThreads nTasks s =
     (case NewPipeContext PipePhases s of
        (channels, s1) \<Rightarrow>
          (case PrepareWorkers_phases PipePhases nThreads nTasks s1 of
             Inl e \<Rightarrow> Inl e
           | Inr (pipeWorkers, s2) \<Rightarrow>
               (case slice_get channels 0 of
                  Inl e \<Rightarrow> Inl e
                | Inr ch0 \<Rightarrow>
                    (case close_chan s2 ch0 of
                       Inl e \<Rightarrow> Inl e
                     | Inr s3 \<Rightarrow>
                         (case shutdown_loop [0 ..< PipePhases] PipePhases channels pipeWorkers s3 of
                            Inl e \<Rightarrow> Inl e
                          | Inr s4 \<Rightarrow> Inr (pipeWorkers, s4))))))"

text \<open>A worker is told to stop when its channel \<open>done\<close> is closed.\<close>

definition signalled :: "chan_store \<Rightarrow> PipeWorker \<Rightarrow> bool" where
  "signalled s w = (done_ch w \<in> set (closed s))"

section \<open>Facts about the circular array\<close>

lemma GetCapacity_pos: "0 < GetCapacity c"
  by (simp add: GetCapacity_def)

lemma go_rem_nonneg: "0 \<le> i \<Longrightarrow> 0 < m \<Longrightarrow> go_rem i m = i mod m"
  by (cases "i = 0") (simp_all add: go_rem_def)

lemma wf_NewCircularArray: "wf_array (NewCircularArray k)"
  by (simp add: wf_array_def NewCircularArray_def GetCapacity_def)

lemma GetCapacity_New: "GetCapacity (NewCircularArray k) = 2 ^ k"
  by (simp add: NewCircularArray_def GetCapacity_def)

lemma GetTask_nonneg:
  "wf_array c \<Longrightarrow> 0 \<le> i \<Longrightarrow> GetTask c i = Inr (tasks c ! nat (i mod GetCapacity c))"
  using GetCapacity_pos [of c]
  by (simp add: GetTask_def slice_get_def go_rem_nonneg wf_array_def)

lemma PutTask_nonneg:
  "wf_array c \<Longrightarrow> 0 \<le> i \<Longrightarrow>
     PutTask c i t = Inr (c\<lparr>tasks := (tasks c)[nat (i mod GetCapacity c) := t]\<rparr>)"
  using GetCapacity_pos [of c]
  by (simp add: PutTask_def slice_set_def go_rem_nonneg wf_array_def)

lemma wf_array_update:
  "wf_array c \<Longrightarrow> wf_array (c\<lparr>tasks := (tasks c)[j := t]\<rparr>)"
  by (simp add: wf_array_def GetCapacity_def)

lemma GetCapacity_update [simp]:
  "GetCapacity (c\<lparr>tasks := ts\<rparr>) = GetCapacity c"
  by (simp add: GetCapacity_def)

lemma mod_distinct_window:
  fixes i j m :: int
  assumes "i < j" "j < i + m"
  shows "i mod m \<noteq> j mod m"
proof
  assume "i mod m = j mod m"
  then have "m dvd (j - i)"
    by (metis mod_eq_dvd_iff)
  moreover have "0 < j - i" "j - i < m" using assms by auto
  ultimately show False
    using zdvd_not_zless by blast
qed

lemma Resize_loop_copies:
  assumes "wf_array c" "wf_array n" "0 \<le> i" "bottom - i \<le> GetCapacity n"
  shows "\<exists>n'. Resize_loop c n i bottom = Inr n' \<and> wf_array n'
           \<and> logCapacity n' = logCapacity n
           \<and> (\<forall>j. i \<le> j \<and> j < bottom \<longrightarrow>
                  tasks n' ! nat (j mod GetCapacity n) = tasks c ! nat (j mod GetCapacity c))
           \<and> (\<forall>p. (\<forall>j. i \<le> j \<and> j < bottom \<longrightarrow> nat (j mod GetCapacity n) \<noteq> p) \<longrightarrow>
                  tasks n' ! p = tasks n ! p)"
  using assms
proof (induction c n i bottom rule: Resize_loop.induct)
  case (1 c n i bottom)
  show ?case
  proof (cases "i < bottom")
    case False
    then show ?thesis
      using "1.prems" by (subst Resize_loop.simps) auto
  next
    case True
    let ?m = "GetCapacity n"
    let ?t = "tasks c ! nat (i mod GetCapacity c)"
    let ?n1 = "n\<lparr>tasks := (tasks n)[nat (i mod ?m) := ?t]\<rparr>"
    have g: "GetTask c i = Inr ?t"
      using "1.prems" by (simp add: GetTask_nonneg)
    have p: "PutTask n i ?t = Inr ?n1"
      using "1.prems" by (simp add: PutTask_nonneg)
    have wf1: "wf_array ?n1"
      using "1.prems" by (simp add: wf_array_update)
    have cap1: "GetCapacity ?n1 = ?m" by simp
    have mpos: "0 < ?m" by (rule GetCapacity_pos)
    have len: "int (length (tasks n)) = ?m"
      using "1.prems" by (simp add: wf_array_def)
    from "1.IH" [OF True g p "1.prems"(1) wf1] "1.prems" True
    obtain n' where r: "Resize_loop c ?n1 (i + 1) bottom = Inr n'"
      and wf': "wf_array n'" and lc: "logCapacity n' = logCapacity ?n1"
      and cp: "\<forall>j. i + 1 \<le> j \<and> j < bottom \<longrightarrow>
                  tasks n' ! nat (j mod ?m) = tasks c ! nat (j mod GetCapacity c)"
      and keep: "\<forall>p. (\<forall>j. i + 1 \<le> j \<and> j < bottom \<longrightarrow> nat (j mod ?m) \<noteq> p) \<longrightarrow>
                  tasks n' ! p = tasks ?n1 ! p"
      by (auto simp: cap1)
    have unfold: "Resize_loop c n i bottom = Inr n'"
      using True g p r by (subst Resize_loop.simps) simp
    have here: "tasks n' ! nat (i mod ?m) = ?t"
    proof -
      have "\<forall>j. i + 1 \<le> j \<and> j < bottom \<longrightarrow> nat (j mod ?m) \<noteq> nat (i mod ?m)"
      proof (intro allI impI)
        fix j assume j: "i + 1 \<le> j \<and> j < bottom"
        then have "i mod ?m \<noteq> j mod ?m"
          using "1.prems"(4) by (intro mod_distinct_window) auto
        moreover have "0 \<le> i mod ?m" "0 \<le> j mod ?m" using mpos by simp_all
        ultimately show "nat (j mod ?m) \<noteq> nat (i mod ?m)" by auto
      qed
      then have "tasks n' ! nat (i mod ?m) = tasks ?n1 ! nat (i mod ?m)"
        using keep by blast
      moreover have "nat (i mod ?m) < length (tasks n)"
        using len mpos by (simp add: nat_less_iff)
      ultimately show ?thesis by simp
    qed
    have copies: "\<forall>j. i \<le> j \<and> j < bottom \<longrightarrow>
                  tasks n' ! nat (j mod ?m) = tasks c ! nat (j mod GetCapacity c)"
    proof (intro allI impI)
      fix j assume j: "i \<le> j \<and> j < bottom"
      show "tasks n' ! nat (j mod ?m) = tasks c ! nat (j mod GetCapacity c)"
      proof (cases "j = i")
        case True then show ?thesis using here by simp
      next
        case False then show ?thesis using j cp by auto
      qed
    qed
    have keeps: "\<forall>p. (\<forall>j. i \<le> j \<and> j < bottom \<longrightarrow> nat (j mod ?m) \<noteq> p) \<longrightarrow>
                  tasks n' ! p = tasks n ! p"
    proof (intro allI impI)
      fix p assume h: "\<forall>j. i \<le> j \<and> j < bottom \<longrightarrow> nat (j mod ?m) \<noteq> p"
      then have "\<forall>j. i + 1 \<le> j \<and> j < bottom \<longrightarrow> nat (j mod ?m) \<noteq> p" by auto
      then have "tasks n' ! p = tasks ?n1 ! p" using keep by blast
      moreover have "nat (i mod ?m) \<noteq> p" using h True by auto
      ultimately show "tasks n' ! p = tasks n ! p" by simp
    qed
    show ?thesis
      using unfold wf' lc copies keeps by simp
  qed
qed

section \<open>C2: Resize\<close>

text \<open>
  Claim C2.  For a circular array of capacity \<open>2 ^ k\<close> (as many slots as its capacity) and
  indices \<open>0 \<le> top \<le> bottom\<close> with \<open>bottom - top \<le> capacity - 1\<close>, \<open>Resize(bottom, top)\<close>
  returns an array of exactly twice the capacity, and for every index \<open>i\<close> in
  \<open>[top, bottom)\<close> \<open>GetTask(i)\<close> on the new array returns the task that \<open>GetTask(i)\<close>
  returns on the old one.
\<close>

theorem C2_Resize_doubles_and_copies:
  assumes "wf_array c" "0 \<le> top'" "top' \<le> bottom" "bottom - top' \<le> GetCapacity c - 1"
  shows "\<exists>n. Resize c bottom top' = Inr n \<and> GetCapacity n = 2 * GetCapacity c
           \<and> (\<forall>i. top' \<le> i \<and> i < bottom \<longrightarrow> GetTask n i = GetTask c i)"
proof -
  let ?new = "NewCircularArray (logCapacity c + 1) :: 'a CircularArray"
  have capn: "GetCapacity ?new = 2 * GetCapacity c"
    by (simp add: NewCircularArray_def GetCapacity_def)
  have "bottom - top' \<le> GetCapacity ?new"
    using assms(4) GetCapacity_pos [of c] unfolding capn by linarith
  from Resize_loop_copies [OF assms(1) wf_NewCircularArray assms(2) this]
  obtain n where r: "Resize_loop c ?new top' bottom = Inr n" and wf: "wf_array n"
    and lc: "logCapacity n = logCapacity ?new"
    and cp: "\<forall>j. top' \<le> j \<and> j < bottom \<longrightarrow>
               tasks n ! nat (j mod GetCapacity ?new) = tasks c ! nat (j mod GetCapacity c)"
    by blast
  have cap: "GetCapacity n = GetCapacity ?new"
    using lc by (simp add: GetCapacity_def)
  have "\<forall>i. top' \<le> i \<and> i < bottom \<longrightarrow> GetTask n i = GetTask c i"
  proof (intro allI impI)
    fix i assume i: "top' \<le> i \<and> i < bottom"
    then have i0: "0 \<le> i" using assms(2) by simp
    show "GetTask n i = GetTask c i"
      using cp i by (simp add: GetTask_nonneg [OF wf i0] GetTask_nonneg [OF assms(1) i0] cap)
  qed
  then show ?thesis
    using r cap capn by (simp add: Resize_def)
qed


theorem C2_Resize_witness:
  "wf_array \<lparr>logCapacity = 1, tasks = [Some (7::nat), Some 8]\<rparr> \<and>
   (\<exists>n. Resize \<lparr>logCapacity = 1, tasks = [Some (7::nat), Some 8]\<rparr> 2 1 = Inr n
        \<and> GetCapacity n = 4 \<and> GetTask n 1 = Inr (Some 8))"
proof -
  let ?c = "\<lparr>logCapacity = 1, tasks = [Some (7::nat), Some 8]\<rparr>"
  have h1: "wf_array ?c" by (simp add: wf_array_def GetCapacity_def)
  have h2: "(0::int) \<le> 1" and h3: "(1::int) \<le> 2" by simp_all
  have h4: "(2::int) - 1 \<le> GetCapacity ?c - 1" by (simp add: GetCapacity_def)
  from C2_Resize_doubles_and_copies [OF h1 h2 h3 h4]
  obtain n where r: "Resize ?c 2 1 = Inr n" and c: "GetCapacity n = 2 * GetCapacity ?c"
    and g: "\<forall>i. 1 \<le> i \<and> i < 2 \<longrightarrow> GetTask n i = GetTask ?c i" by blast
  have "GetTask n 1 = GetTask ?c 1" using g by simp
  moreover have "GetTask ?c 1 = Inr (Some 8)"
    by (simp add: GetTask_def GetCapacity_def go_rem_def slice_get_def)
  moreover have "GetCapacity n = 4" using c by (simp add: GetCapacity_def)
  ultimately show ?thesis using r h1 by simp
qed

section \<open>The queue run by its owner\<close>

lemma Resize_swapped:
  "top_v \<le> bottom_v \<Longrightarrow> Resize c top_v bottom_v = Inr (NewCircularArray (logCapacity c + 1))"
  by (simp add: Resize_def Resize_loop.simps)

lemma queue_inv_New: "queue_inv (NewUDEqueue k)"
  by (simp add: queue_inv_def NewUDEqueue_def wf_NewCircularArray size_bounded_def
      logical_size_def GetCapacity_New)

lemma pushBottom_room:
  assumes "wf_array (tasks_q u)" "0 \<le> bottom_q u"
    and "logical_size u < GetCapacity (tasks_q u) - 1"
  shows "pushBottom u t =
           Inr (u\<lparr>tasks_q := (tasks_q u)\<lparr>tasks :=
                     (tasks (tasks_q u))[nat (bottom_q u mod GetCapacity (tasks_q u)) := t]\<rparr>,
                  bottom_q := bottom_q u + 1\<rparr>)"
  using assms
  by (simp add: pushBottom_def logical_size_def Let_def PutTask_nonneg)

lemma pushBottom_full:
  assumes "top_q u \<le> bottom_q u" "0 \<le> bottom_q u"
    and "GetCapacity (tasks_q u) - 1 \<le> logical_size u"
  shows "pushBottom u t =
           Inr (u\<lparr>tasks_q := \<lparr>logCapacity = logCapacity (tasks_q u) + 1,
                     tasks = (replicate (2 ^ (logCapacity (tasks_q u) + 1)) None)
                        [nat (bottom_q u mod (2 * GetCapacity (tasks_q u))) := t]\<rparr>,
                  bottom_q := bottom_q u + 1\<rparr>)"
proof -
  let ?n = "NewCircularArray (logCapacity (tasks_q u) + 1) :: 'a CircularArray"
  have r: "Resize (tasks_q u) (top_q u) (bottom_q u) = Inr ?n"
    using assms(1) by (rule Resize_swapped)
  have p: "PutTask ?n (bottom_q u) t
             = Inr (?n\<lparr>tasks := (tasks ?n)[nat (bottom_q u mod GetCapacity ?n) := t]\<rparr>)"
    using assms(2) by (intro PutTask_nonneg wf_NewCircularArray)
  have c: "GetCapacity ?n = 2 * GetCapacity (tasks_q u)"
    by (simp add: NewCircularArray_def GetCapacity_def)
  show ?thesis
    using assms(3) r p unfolding c
    by (simp add: pushBottom_def logical_size_def Let_def NewCircularArray_def)
qed

lemma pushBottom_inv:
  assumes "queue_inv u"
  shows "\<exists>u'. pushBottom u t = Inr u' \<and> queue_inv u'"
proof (cases "logical_size u < GetCapacity (tasks_q u) - 1")
  case True
  have "wf_array (tasks_q u)" "0 \<le> bottom_q u" using assms by (simp_all add: queue_inv_def)
  from pushBottom_room [OF this True, of t] assms True show ?thesis
    by (simp add: queue_inv_def size_bounded_def logical_size_def wf_array_update)
next
  case False
  then have full: "GetCapacity (tasks_q u) - 1 \<le> logical_size u" by simp
  have pos: "0 < GetCapacity (tasks_q u)" by (rule GetCapacity_pos)
  have le: "top_q u \<le> bottom_q u" using full pos by (simp add: logical_size_def)
  have b: "0 \<le> bottom_q u" using assms by (simp add: queue_inv_def)
  have sz: "logical_size u = GetCapacity (tasks_q u) - 1"
    using full assms by (simp add: queue_inv_def size_bounded_def)
  let ?u' = "u\<lparr>tasks_q := \<lparr>logCapacity = logCapacity (tasks_q u) + 1,
                     tasks = (replicate (2 ^ (logCapacity (tasks_q u) + 1)) None)
                        [nat (bottom_q u mod (2 * GetCapacity (tasks_q u))) := t]\<rparr>,
                  bottom_q := bottom_q u + 1\<rparr>"
  have cap': "GetCapacity (tasks_q ?u') = 2 * GetCapacity (tasks_q u)"
    by (simp add: GetCapacity_def)
  have "wf_array (tasks_q ?u')" by (simp add: wf_array_def GetCapacity_def)
  moreover have "0 \<le> top_q ?u'" "0 \<le> bottom_q ?u'" "top_q ?u' - 1 \<le> bottom_q ?u'"
    using assms by (simp_all add: queue_inv_def)
  moreover have "logical_size ?u' = GetCapacity (tasks_q u)"
    using sz by (simp add: logical_size_def)
  then have "size_bounded ?u'"
    unfolding size_bounded_def cap' using pos by linarith
  ultimately have "queue_inv ?u'" unfolding queue_inv_def by blast
  then show ?thesis
    using pushBottom_full [OF le b full, of t] by blast
qed

lemma popBottom_inv:
  assumes "queue_inv u"
  shows "\<exists>r u'. popBottom u = Inr (r, u') \<and> queue_inv u'"
proof -
  have wf: "wf_array (tasks_q u)" using assms by (simp add: queue_inv_def)
  show ?thesis
  proof (cases "bottom_q u - 1 - top_q u < 0")
    case True
    then show ?thesis using assms GetCapacity_pos [of "tasks_q u"]
      by (simp add: popBottom_def Let_def queue_inv_def size_bounded_def logical_size_def)
  next
    case False
    then have "0 \<le> bottom_q u - 1" using assms by (simp add: queue_inv_def)
    from GetTask_nonneg [OF wf this] False assms show ?thesis
      by (auto simp: popBottom_def Let_def queue_inv_def size_bounded_def logical_size_def
          CompareAndSwapInt64_def)
  qed
qed

lemma run_ops_inv:
  "queue_inv u \<Longrightarrow>
     \<exists>us. run_ops u ops = Inr us \<and> length us = length ops \<and> (\<forall>v \<in> set us. queue_inv v)"
proof (induction ops arbitrary: u)
  case Nil
  then show ?case by simp
next
  case (Cons x xs)
  have "\<exists>u1. run_op u x = Inr u1 \<and> queue_inv u1"
  proof (cases x)
    case (PushBottom t)
    then show ?thesis using pushBottom_inv [OF Cons.prems, of "Some t"] by simp
  next
    case PopBottom
    then show ?thesis using popBottom_inv [OF Cons.prems] by auto
  qed
  then obtain u1 where s: "run_op u x = Inr u1" and i: "queue_inv u1" by blast
  from Cons.IH [OF i] obtain us where "run_ops u1 xs = Inr us" "length us = length xs"
    "\<forall>v \<in> set us. queue_inv v" by blast
  then show ?case using s i by simp
qed

section \<open>C3: the size stays below the capacity\<close>

text \<open>
  Claim C3.  For every sequence of owner operations (\<open>pushBottom\<close> and \<open>popBottom\<close>) run on
  a fresh queue, no operation panics and after every operation the logical size
  \<open>bottom - top\<close> is at most \<open>capacity - 1\<close>.  In the fresh queue and in every state the
  sequence reaches, a \<open>pushBottom\<close> that finds \<open>bottom - top \<ge> capacity - 1\<close> leaves
  a buffer of twice the capacity, with the pushed task stored at the old \<open>bottom\<close>, and a
  logical size below the new capacity.
\<close>

theorem C3_size_stays_below_capacity:
  "\<exists>us. run_ops (NewUDEqueue k) ops = Inr us \<and> length us = length ops \<and>
     (\<forall>u \<in> set us. size_bounded u) \<and>
     (\<forall>u \<in> set (NewUDEqueue k # us). \<forall>t.
        GetCapacity (tasks_q u) - 1 \<le> logical_size u \<longrightarrow>
        (\<exists>u'. pushBottom u (Some t) = Inr u'
           \<and> GetCapacity (tasks_q u') = 2 * GetCapacity (tasks_q u)
           \<and> GetTask (tasks_q u') (bottom_q u) = Inr (Some t)
           \<and> logical_size u' < GetCapacity (tasks_q u')))"
proof -
  from run_ops_inv [OF queue_inv_New, of k ops]
  obtain us where r: "run_ops (NewUDEqueue k) ops = Inr us" and l: "length us = length ops"
    and i: "\<forall>v \<in> set us. queue_inv v" by blast
  have all: "\<forall>u \<in> set (NewUDEqueue k # us). queue_inv u"
    using i queue_inv_New by simp
  have push: "\<exists>u'. pushBottom u (Some t) = Inr u'
           \<and> GetCapacity (tasks_q u') = 2 * GetCapacity (tasks_q u)
           \<and> GetTask (tasks_q u') (bottom_q u) = Inr (Some t)
           \<and> logical_size u' < GetCapacity (tasks_q u')"
    if inv: "queue_inv u" and full: "GetCapacity (tasks_q u) - 1 \<le> logical_size u" for u t
  proof -
    have pos: "0 < GetCapacity (tasks_q u)" by (rule GetCapacity_pos)
    have le: "top_q u \<le> bottom_q u" using full pos by (simp add: logical_size_def)
    have b: "0 \<le> bottom_q u" using inv by (simp add: queue_inv_def)
    have sz: "logical_size u = GetCapacity (tasks_q u) - 1"
      using full inv by (simp add: queue_inv_def size_bounded_def)
    let ?c = "\<lparr>logCapacity = logCapacity (tasks_q u) + 1,
                     tasks = (replicate (2 ^ (logCapacity (tasks_q u) + 1)) None)
                        [nat (bottom_q u mod (2 * GetCapacity (tasks_q u))) := Some t]\<rparr>"
    have wfc: "wf_array ?c" by (simp add: wf_array_def GetCapacity_def)
    have capc: "GetCapacity ?c = 2 * GetCapacity (tasks_q u)" by (simp add: GetCapacity_def)
    have "nat (bottom_q u mod (2 * GetCapacity (tasks_q u))) < 2 * 2 ^ logCapacity (tasks_q u)"
      using pos by (simp add: nat_less_iff GetCapacity_def)
    then have g: "GetTask ?c (bottom_q u) = Inr (Some t)"
      unfolding GetTask_nonneg [OF wfc b] capc by simp
    show ?thesis
      using pushBottom_full [OF le b full, of "Some t"] g capc sz pos
      by (simp add: logical_size_def)
  qed
  have bounded: "\<forall>u \<in> set us. size_bounded u"
    using i by (simp add: queue_inv_def)
  have resize: "\<forall>u \<in> set (NewUDEqueue k # us). \<forall>t.
        GetCapacity (tasks_q u) - 1 \<le> logical_size u \<longrightarrow>
        (\<exists>u'. pushBottom u (Some t) = Inr u'
           \<and> GetCapacity (tasks_q u') = 2 * GetCapacity (tasks_q u)
           \<and> GetTask (tasks_q u') (bottom_q u) = Inr (Some t)
           \<and> logical_size u' < GetCapacity (tasks_q u'))"
  proof (intro ballI allI impI)
    fix u t
    assume m: "u \<in> set (NewUDEqueue k # us)"
      and full: "GetCapacity (tasks_q u) - 1 \<le> logical_size u"
    from all m have "queue_inv u" by (rule bspec)
    then show "\<exists>u'. pushBottom u (Some t) = Inr u'
           \<and> GetCapacity (tasks_q u') = 2 * GetCapacity (tasks_q u)
           \<and> GetTask (tasks_q u') (bottom_q u) = Inr (Some t)
           \<and> logical_size u' < GetCapacity (tasks_q u')"
      using full by (rule push)
  qed
  show ?thesis
    by (rule exI [of _ us]) (intro conjI r l bounded resize)
qed


theorem C3_size_witness:
  "GetCapacity (tasks_q \<lparr>tasks_q = \<lparr>logCapacity = 1, tasks = [Some (10::nat), None]\<rparr>,
                          bottom_q = 1, top_q = 0\<rparr>) - 1
     \<le> logical_size \<lparr>tasks_q = \<lparr>logCapacity = 1, tasks = [Some (10::nat), None]\<rparr>,
                       bottom_q = 1, top_q = 0\<rparr>
   \<and> size_bounded \<lparr>tasks_q = \<lparr>logCapacity = 1, tasks = [Some (10::nat), None]\<rparr>,
                     bottom_q = 1, top_q = 0\<rparr>
   \<and> (\<exists>u'. pushBottom \<lparr>tasks_q = \<lparr>logCapacity = 1, tasks = [Some (10::nat), None]\<rparr>,
                          bottom_q = 1, top_q = 0\<rparr> (Some 20) = Inr u'
          \<and> GetCapacity (tasks_q u') = 4 \<and> GetTask (tasks_q u') 1 = Inr (Some 20)
          \<and> logical_size u' < GetCapacity (tasks_q u'))"
proof -
  let ?u = "\<lparr>tasks_q = \<lparr>logCapacity = 1, tasks = [Some (10::nat), None]\<rparr>,
             bottom_q = 1, top_q = 0\<rparr>"
  have run: "run_ops (NewUDEqueue 1) [PushBottom (10::nat)] = Inr [?u]"
    by (simp add: NewUDEqueue_def NewCircularArray_def pushBottom_def GetCapacity_def
        PutTask_def slice_set_def go_rem_def Let_def numeral_2_eq_2)
  from C3_size_stays_below_capacity [of 1 "[PushBottom (10::nat)]"]
  obtain us where r: "run_ops (NewUDEqueue 1) [PushBottom (10::nat)] = Inr us"
    and b: "\<forall>u \<in> set us. size_bounded u"
    and p: "\<forall>u \<in> set (NewUDEqueue 1 # us). \<forall>t.
        GetCapacity (tasks_q u) - 1 \<le> logical_size u \<longrightarrow>
        (\<exists>u'. pushBottom u (Some t) = Inr u'
           \<and> GetCapacity (tasks_q u') = 2 * GetCapacity (tasks_q u)
           \<and> GetTask (tasks_q u') (bottom_q u) = Inr (Some t)
           \<and> logical_size u' < GetCapacity (tasks_q u'))"
    by blast
  have us: "us = [?u]" using r run by simp
  have full: "GetCapacity (tasks_q ?u) - 1 \<le> logical_size ?u"
    by (simp add: GetCapacity_def logical_size_def)
  have sb: "size_bounded ?u" using b us by simp
  have "?u \<in> set (NewUDEqueue 1 # us)" using us by simp
  with p full have "\<exists>u'. pushBottom ?u (Some 20) = Inr u'
           \<and> GetCapacity (tasks_q u') = 2 * GetCapacity (tasks_q ?u)
           \<and> GetTask (tasks_q u') (bottom_q ?u) = Inr (Some 20)
           \<and> logical_size u' < GetCapacity (tasks_q u')"
    by blast
  moreover have "2 * GetCapacity (tasks_q ?u) = 4" by (simp add: GetCapacity_def)
  ultimately have "\<exists>u'. pushBottom ?u (Some 20) = Inr u'
          \<and> GetCapacity (tasks_q u') = 4 \<and> GetTask (tasks_q u') 1 = Inr (Some 20)
          \<and> logical_size u' < GetCapacity (tasks_q u')"
    by simp
  then show ?thesis using full sb by blast
qed

section \<open>C10: the pop of the last task\<close>

text \<open>
  Claim C10.  When the owner's \<open>popBottom\<close> removes the last task (logical size 1 before
  the call; its compare-and-swap on \<open>top\<close> succeeds, no thief running), it returns that
  task and leaves \<open>bottom = top - 1\<close>, a logical size of \<open>-1\<close> and not the repaired state
  \<open>bottom = top\<close>.  In that state \<open>IsEmpty\<close> is true, and the next \<open>popBottom\<close> returns
  nil and sets \<open>bottom = top\<close>.
\<close>

theorem C10_last_pop_leaves_size_minus_one:
  assumes "wf_array (tasks_q u)" "0 \<le> top_q u" "logical_size u = 1"
  shows "\<exists>task u1 u2.
           popBottom u = Inr (task, u1) \<and> GetTask (tasks_q u) (top_q u) = Inr task
         \<and> top_q u1 = top_q u + 1 \<and> bottom_q u1 = top_q u1 - 1 \<and> logical_size u1 = - 1
         \<and> IsEmpty u1
         \<and> popBottom u1 = Inr (None, u2) \<and> bottom_q u2 = top_q u2 \<and> top_q u2 = top_q u1"
proof -
  have b: "bottom_q u - 1 = top_q u" using assms(3) by (simp add: logical_size_def)
  from GetTask_nonneg [OF assms(1) assms(2)] b show ?thesis
    by (simp add: popBottom_def Let_def CompareAndSwapInt64_def logical_size_def IsEmpty_def)
qed


theorem C10_last_pop_witness:
  "logical_size \<lparr>tasks_q = \<lparr>logCapacity = 1, tasks = [Some (7::nat), None]\<rparr>,
                  bottom_q = 1, top_q = 0\<rparr> = 1
   \<and> (\<exists>u1 u2. popBottom \<lparr>tasks_q = \<lparr>logCapacity = 1, tasks = [Some (7::nat), None]\<rparr>,
                           bottom_q = 1, top_q = 0\<rparr> = Inr (Some 7, u1)
         \<and> bottom_q u1 = 0 \<and> top_q u1 = 1 \<and> IsEmpty u1
         \<and> popBottom u1 = Inr (None, u2) \<and> bottom_q u2 = 1 \<and> top_q u2 = 1)"
proof -
  let ?u = "\<lparr>tasks_q = \<lparr>logCapacity = 1, tasks = [Some (7::nat), None]\<rparr>,
             bottom_q = 1, top_q = 0\<rparr>"
  have h1: "wf_array (tasks_q ?u)" by (simp add: wf_array_def GetCapacity_def)
  have h2: "0 \<le> top_q ?u" by simp
  have h3: "logical_size ?u = 1" by (simp add: logical_size_def)
  from C10_last_pop_leaves_size_minus_one [OF h1 h2 h3]
  obtain task u1 u2 where p: "popBottom ?u = Inr (task, u1)"
    and g: "GetTask (tasks_q ?u) (top_q ?u) = Inr task"
    and t: "top_q u1 = top_q ?u + 1" and b: "bottom_q u1 = top_q u1 - 1"
    and e: "IsEmpty u1" and p2: "popBottom u1 = Inr (None, u2)"
    and b2: "bottom_q u2 = top_q u2" and t2: "top_q u2 = top_q u1"
    by blast
  have "task = Some 7"
    using g by (simp add: GetTask_def GetCapacity_def go_rem_def slice_get_def)
  then show ?thesis using h3 p t b e p2 b2 t2 by simp
qed

section \<open>C1: pushes followed by pops\<close>

text \<open>
  Claim C1 says that \<open>N\<close> pushes followed by \<open>N\<close> pops on a fresh queue return the tasks
  in reverse push order, none of the pops returning nil.  On a queue of initial capacity 2
  the second push resizes: \<open>pushBottom\<close> passes \<open>oldTop\<close> and \<open>u.bottom\<close> to \<open>Resize\<close> in
  the order opposite to its parameters, the copy loop runs over an empty range, and the
  first task is not in the doubled buffer.  The two pops return the second task and nil.
\<close>

theorem C1_two_pushes_two_pops:
  "(case push_all (NewUDEqueue 1) [t1, t2] of
      Inl e \<Rightarrow> Inl e
    | Inr u \<Rightarrow> (case pop_n 2 u of Inl e \<Rightarrow> Inl e | Inr (rs, u') \<Rightarrow> Inr rs))
   = Inr [Some t2, None]"
  by (simp add: NewUDEqueue_def NewCircularArray_def pushBottom_def popBottom_def GetCapacity_def
     Resize_def Resize_loop.simps PutTask_def GetTask_def slice_get_def slice_set_def go_rem_def
     CompareAndSwapInt64_def Let_def numeral_2_eq_2)

section \<open>C7: ChunksOfTasks\<close>

lemma wrap64_id: "- (2 ^ 63) \<le> x \<Longrightarrow> x < 2 ^ 63 \<Longrightarrow> wrap64 x = x"
  by (simp add: wrap64_def)

lemma go_quot_nonneg: "0 \<le> a \<Longrightarrow> 0 < b \<Longrightarrow> go_quot a b = a div b"
  by (cases "a = 0") (simp_all add: go_quot_def)

lemma ChunksOfTasks_loop_nth:
  assumes "int (length ix) = n + 1" "1 \<le> i" "i \<le> n + 1"
  shows "length (ChunksOfTasks_loop ix i n nt cs) = length ix
       \<and> (\<forall>j. 0 \<le> j \<and> j \<le> n \<longrightarrow>
            ChunksOfTasks_loop ix i n nt cs ! nat j =
              (if j < i then ix ! nat j else if j = n then nt else wrap64 (j * cs)))"
  using assms
proof (induction ix i n nt cs rule: ChunksOfTasks_loop.induct)
  case (1 ix i n nt cs)
  show ?case
  proof (cases "i \<le> n")
    case False
    then show ?thesis using "1.prems" by (subst (1 2) ChunksOfTasks_loop.simps) auto
  next
    case True
    let ?ix = "if i = n then ix[nat i := nt] else ix[nat i := wrap64 (i * cs)]"
    have len: "int (length ?ix) = n + 1" using "1.prems" by simp
    have u: "ChunksOfTasks_loop ix i n nt cs = ChunksOfTasks_loop ?ix (i + 1) n nt cs"
      using True by (subst ChunksOfTasks_loop.simps) simp
    from "1.IH" [OF True len] "1.prems" True
    have ih: "length (ChunksOfTasks_loop ?ix (i + 1) n nt cs) = length ?ix
       \<and> (\<forall>j. 0 \<le> j \<and> j \<le> n \<longrightarrow>
            ChunksOfTasks_loop ?ix (i + 1) n nt cs ! nat j =
              (if j < i + 1 then ?ix ! nat j else if j = n then nt else wrap64 (j * cs)))"
      by simp
    have "\<forall>j. 0 \<le> j \<and> j \<le> n \<longrightarrow>
            ChunksOfTasks_loop ?ix (i + 1) n nt cs ! nat j =
              (if j < i then ix ! nat j else if j = n then nt else wrap64 (j * cs))"
    proof (intro allI impI)
      fix j assume j: "0 \<le> j \<and> j \<le> n"
      have lt: "nat i < length ix" using "1.prems" True by (simp add: nat_less_iff)
      show "ChunksOfTasks_loop ?ix (i + 1) n nt cs ! nat j =
              (if j < i then ix ! nat j else if j = n then nt else wrap64 (j * cs))"
      proof (cases "j = i")
        case True
        then show ?thesis using ih j lt by simp
      next
        case False
        then have "nat j \<noteq> nat i" using j "1.prems" by auto
        then show ?thesis using ih j False by auto
      qed
    qed
    then show ?thesis using ih u by simp
  qed
qed

lemma ceil_div_pos:
  fixes a b :: int
  assumes "0 < b"
  shows "\<lceil>real_of_int a / real_of_int b\<rceil> = (a + b - 1) div b"
proof (rule ceiling_unique)
  let ?q = "(a + b - 1) div b"
  have e: "?q * b + (a + b - 1) mod b = a + b - 1" by (rule div_mult_mod_eq)
  have m: "0 \<le> (a + b - 1) mod b" "(a + b - 1) mod b < b"
    using assms by simp_all
  have d: "(?q - 1) * b = ?q * b - b" by (simp add: algebra_simps)
  have lo: "(?q - 1) * b < a" unfolding d using e m by linarith
  have hi: "a \<le> ?q * b" using e m by linarith
  have rb: "0 < real_of_int b" using assms by simp
  have "real_of_int ((?q - 1) * b) < real_of_int a" using lo by (simp only: of_int_less_iff)
  then show "real_of_int ?q - 1 < real_of_int a / real_of_int b"
    using rb by (simp add: pos_less_divide_eq)
  have "real_of_int a \<le> real_of_int (?q * b)" using hi by (simp only: of_int_le_iff)
  then show "real_of_int a / real_of_int b \<le> real_of_int ?q"
    using rb by (simp add: pos_divide_le_eq)
qed

text \<open>
  Claim C7, as amended.  For \<open>total \<ge> 1\<close> and \<open>chunk_size \<ge> 1\<close> whose sum is below
  \<open>2 ^ 63\<close> (so that \<open>total + chunk_size - 1\<close> does not wrap in a 64-bit \<open>int\<close>),
  \<open>ChunksOfTasks(total, chunk_size)\<close> returns a strictly increasing list of
  \<open>ceil(total / chunk_size) + 1\<close> boundaries, entry \<open>i\<close> being \<open>i * chunk_size\<close> for
  \<open>i < ceil(total / chunk_size)\<close> and the last entry being \<open>total\<close>.
\<close>

theorem C7_ChunksOfTasks_boundaries:
  assumes "1 \<le> nt" "1 \<le> cs" "nt + cs < 2 ^ 63"
  shows "\<exists>xs. ChunksOfTasks nt cs = Inr xs
       \<and> int (length xs) = \<lceil>real_of_int nt / real_of_int cs\<rceil> + 1
       \<and> (\<forall>i. 0 \<le> i \<and> i < \<lceil>real_of_int nt / real_of_int cs\<rceil> \<longrightarrow> xs ! nat i = i * cs)
       \<and> last xs = nt
       \<and> sorted_wrt (<) xs"
proof -
  let ?n = "(nt + cs - 1) div cs"
  have c: "\<lceil>real_of_int nt / real_of_int cs\<rceil> = ?n" using assms by (simp add: ceil_div_pos)
  have w1: "wrap64 (nt + cs - 1) = nt + cs - 1" using assms by (intro wrap64_id) auto
  have q: "go_quot (nt + cs - 1) cs = ?n" using assms by (simp add: go_quot_nonneg)
  have e: "?n * cs + (nt + cs - 1) mod cs = nt + cs - 1" by (rule div_mult_mod_eq)
  have m: "0 \<le> (nt + cs - 1) mod cs" "(nt + cs - 1) mod cs < cs"
    using assms by simp_all
  have d: "(?n - 1) * cs = ?n * cs - cs" by (simp add: algebra_simps)
  have below: "(?n - 1) * cs < nt" unfolding d using e m by linarith
  have n1: "1 \<le> ?n"
  proof (rule ccontr)
    assume "\<not> 1 \<le> ?n"
    then have "?n \<le> 0" by simp
    then have "?n * cs \<le> 0" using assms by (simp add: mult_le_0_iff)
    then show False using e m assms by linarith
  qed
  have nle: "?n \<le> nt"
  proof -
    have "(?n - 1) * 1 \<le> (?n - 1) * cs" using n1 assms by (intro mult_left_mono) auto
    then show ?thesis using below by simp
  qed
  have w2: "wrap64 ?n = ?n" using n1 nle assms by (intro wrap64_id) auto
  have w3: "wrap64 (?n + 1) = ?n + 1" using n1 nle assms by (intro wrap64_id) auto
  have nc: "wrap64 (go_quot (wrap64 (nt + cs - 1)) cs) = ?n"
    unfolding w1 q w2 ..
  let ?ix = "(replicate (nat (?n + 1)) (0::int))[0 := 0]"
  let ?xs = "ChunksOfTasks_loop ?ix 1 ?n nt cs"
  have len0: "int (length ?ix) = ?n + 1" using n1 by simp
  from ChunksOfTasks_loop_nth [OF len0, of 1 nt cs] n1
  have len: "length ?xs = length ?ix"
    and nth: "\<forall>j. 0 \<le> j \<and> j \<le> ?n \<longrightarrow>
            ?xs ! nat j = (if j < 1 then ?ix ! nat j else if j = ?n then nt else wrap64 (j * cs))"
    by simp_all
  have s: "slice_set (replicate (nat (?n + 1)) (0::int)) 0 0 = Inr ?ix"
    using n1 by (simp add: slice_set_def)
  have r: "ChunksOfTasks nt cs = Inr ?xs"
    unfolding ChunksOfTasks_def Let_def nc w3 s using assms n1 by simp
  have l: "int (length ?xs) = ?n + 1" using len len0 by simp
  have val: "?xs ! nat j = (if j = ?n then nt else j * cs)" if "0 \<le> j" "j \<le> ?n" for j
  proof (cases "j < 1")
    case True
    then have j0: "j = 0" using that by simp
    have "?ix ! 0 = 0" using n1 by (cases "nat (?n + 1)") simp_all
    then have "?xs ! 0 = 0" using spec [OF nth, of 0] n1 by simp
    then show ?thesis using j0 n1 by simp
  next
    case False
    show ?thesis
    proof (cases "j = ?n")
      case True
      then show ?thesis using spec [OF nth, of j] that False by simp
    next
      case ne: False
      have "j * cs \<le> (?n - 1) * cs" using that ne assms by (intro mult_right_mono) auto
      then have "j * cs < nt" using below by simp
      moreover have "0 \<le> j * cs" using that assms by simp
      ultimately have "wrap64 (j * cs) = j * cs" using assms by (intro wrap64_id) auto
      then show ?thesis using spec [OF nth, of j] that False ne by simp
    qed
  qed
  have first: "\<forall>i. 0 \<le> i \<and> i < ?n \<longrightarrow> ?xs ! nat i = i * cs"
    using val by simp
  have "?xs \<noteq> []" using l n1 by auto
  then have "last ?xs = ?xs ! (length ?xs - 1)" by (rule last_conv_nth)
  also have "length ?xs - 1 = nat ?n" using l by simp
  also have "?xs ! nat ?n = nt" using val [of ?n] n1 by simp
  finally have lst: "last ?xs = nt" .
  have "\<forall>i j. i < j \<longrightarrow> j < length ?xs \<longrightarrow> ?xs ! i < ?xs ! j"
  proof (intro allI impI)
    fix i j :: nat assume ij: "i < j" and j: "j < length ?xs"
    have jn: "int j \<le> ?n" using j l by simp
    have iv: "?xs ! i = int i * cs" using val [of "int i"] ij jn by simp
    have jv: "?xs ! j = (if int j = ?n then nt else int j * cs)" using val [of "int j"] jn by simp
    have "int i * cs \<le> (?n - 1) * cs" using ij jn assms by (intro mult_right_mono) auto
    then have a: "int i * cs < nt" using below by simp
    have b: "int i * cs < int j * cs" using ij assms by simp
    show "?xs ! i < ?xs ! j" using iv jv a b by simp
  qed
  then have srt: "sorted_wrt (<) ?xs" by (simp add: sorted_wrt_iff_nth_less)
  show ?thesis
    using r l first lst srt unfolding c by blast
qed

theorem C7_ChunksOfTasks_witness:
  "(1::int) \<le> 10 \<and> (1::int) \<le> 3 \<and> (10::int) + 3 < 2 ^ 63
   \<and> (\<exists>xs. ChunksOfTasks 10 3 = Inr xs \<and> int (length xs) = 5
          \<and> xs ! 0 = 0 \<and> xs ! 1 = 3 \<and> xs ! 2 = 6 \<and> xs ! 3 = 9 \<and> last xs = 10
          \<and> sorted_wrt (<) xs)"
proof -
  have h1: "(1::int) \<le> 10" and h2: "(1::int) \<le> 3" and h3: "(10::int) + 3 < 2 ^ 63"
    by simp_all
  have c: "\<lceil>real_of_int 10 / real_of_int 3\<rceil> = (4::int)"
    by (simp add: ceil_div_pos)
  from C7_ChunksOfTasks_boundaries [OF h1 h2 h3]
  obtain xs where r: "ChunksOfTasks 10 3 = Inr xs"
    and l: "int (length xs) = 4 + 1"
    and n: "\<forall>i. 0 \<le> i \<and> i < 4 \<longrightarrow> xs ! nat i = i * 3"
    and e: "last xs = 10" and s: "sorted_wrt (<) xs"
    unfolding c by blast
  have "xs ! 0 = 0" "xs ! 1 = 3" "xs ! 2 = 6" "xs ! 3 = 9"
    using spec [OF n, of 0] spec [OF n, of 1] spec [OF n, of 2] spec [OF n, of 3]
    by simp_all
  then show ?thesis using r l e s by auto
qed

text \<open>
  Claim C7 as stated, for every \<open>total \<ge> 1\<close> and \<open>chunk_size \<ge> 1\<close>, fails where the sum
  wraps: for 2 tasks and the largest chunk size \<open>2 ^ 63 - 1\<close> the number of chunks comes out
  as \<open>-1\<close>, the slice is empty and \<open>indexes[0] = 0\<close> panics.
\<close>

theorem C7_ChunksOfTasks_counterexample:
  "ChunksOfTasks 2 9223372036854775807 = Inl IndexOutOfRange"
  by code_simp


section \<open>C6: SlicesByRow\<close>








section \<open>C5: applyOneThread\<close>

lemma wrap64_flag: "f = 0 \<or> f = 1 \<Longrightarrow> wrap64 (1 - f) = 1 - f"
  by (auto simp: wrap64_def)

lemma Final_put_output [simp]: "Final (put_output img p) = Final img"
  by (simp add: put_output_def)

lemma Final_ApplyEffect [simp]: "Final (ApplyEffect conv img k) = Final img"
  by (simp add: ApplyEffect_def Let_def split: prod.splits)

lemma applyOneThread_snoc:
  "applyOneThread conv img (ks @ [k]) =
     (let img1 = ApplyEffect conv (applyOneThread conv img ks) k
      in img1\<lparr>Final := wrap64 (1 - Final img1)\<rparr>)"
  by (induction ks arbitrary: img) (simp_all add: Let_def)

lemma Final_applyOneThread:
  "Final img = 0 \<or> Final img = 1 \<Longrightarrow>
     Final (applyOneThread conv img ks) = (Final img + int (length ks)) mod 2"
proof (induction ks arbitrary: img)
  case Nil
  then show ?case by auto
next
  case (Cons k ks)
  let ?img2 = "(ApplyEffect conv img k)\<lparr>Final := wrap64 (1 - Final (ApplyEffect conv img k))\<rparr>"
  have f2: "Final ?img2 = 1 - Final img" using Cons.prems by (simp add: wrap64_flag)
  then have "Final ?img2 = 0 \<or> Final ?img2 = 1" using Cons.prems by auto
  from Cons.IH [OF this]
  have "Final (applyOneThread conv ?img2 ks) = (1 - Final img + int (length ks)) mod 2"
    unfolding f2 .
  moreover have "(1 - Final img + int (length ks)) mod 2 = (Final img + int (length (k # ks))) mod 2"
    using Cons.prems by auto
  ultimately show ?case by (simp add: Let_def)
qed

text \<open>
  Claim C5.  For every image whose flag \<open>Final\<close> is 0 or 1 (\<open>Load\<close> sets it to 0 and every
  write is \<open>1 - Final\<close>) and every list of \<open>K\<close> kernels, \<open>applyOneThread\<close> returns with
  \<open>Final = (initial Final + K) mod 2\<close>.  It applies the kernels in list order and toggles
  the flag exactly once after each: the image after the first \<open>j + 1\<close> kernels is the
  image after the first \<open>j\<close> with kernel \<open>j\<close> applied and \<open>Final\<close> toggled, for every
  \<open>j < K\<close>, so the flag flips \<open>K\<close> times.
\<close>

theorem C5_applyOneThread_flips:
  assumes "Final img = 0 \<or> Final img = 1"
  shows "Final (applyOneThread conv img kernels) = (Final img + int (length kernels)) mod 2
       \<and> (\<forall>j < length kernels.
            applyOneThread conv img (take (Suc j) kernels) =
              (let img1 = ApplyEffect conv (applyOneThread conv img (take j kernels)) (kernels ! j)
               in img1\<lparr>Final := wrap64 (1 - Final img1)\<rparr>)
          \<and> Final (applyOneThread conv img (take (Suc j) kernels)) =
              1 - Final (applyOneThread conv img (take j kernels)))"
proof -
  have step: "applyOneThread conv img (take (Suc j) kernels) =
              (let img1 = ApplyEffect conv (applyOneThread conv img (take j kernels)) (kernels ! j)
               in img1\<lparr>Final := wrap64 (1 - Final img1)\<rparr>)" if "j < length kernels" for j
    using that by (simp add: take_Suc_conv_app_nth applyOneThread_snoc)
  have flag: "Final (applyOneThread conv img ks) = 0 \<or> Final (applyOneThread conv img ks) = 1"
    for ks
    unfolding Final_applyOneThread [OF assms] by presburger
  have flip: "Final (applyOneThread conv img (take (Suc j) kernels)) =
              1 - Final (applyOneThread conv img (take j kernels))" if "j < length kernels" for j
    unfolding step [OF that] using flag [of "take j kernels"] by (simp add: Let_def wrap64_flag)
  show ?thesis
    using Final_applyOneThread [OF assms] step flip by blast
qed

theorem C5_applyOneThread_witness:
  "Final \<lparr>in_px = \<lparr>Pix = (\<lambda>p. \<lparr>R = 65535, G = 0, B = 0, A = 65535\<rparr>),
                    Rect = \<lparr>Min_pt = \<lparr>X = 0, Y = 0\<rparr>, Max_pt = \<lparr>X = 2, Y = 2\<rparr>\<rparr>\<rparr>,
           out_px = \<lparr>Pix = (\<lambda>p. \<lparr>R = 0, G = 0, B = 0, A = 0\<rparr>),
                     Rect = \<lparr>Min_pt = \<lparr>X = 0, Y = 0\<rparr>, Max_pt = \<lparr>X = 2, Y = 2\<rparr>\<rparr>\<rparr>,
           Bounds = \<lparr>Min_pt = \<lparr>X = 0, Y = 0\<rparr>, Max_pt = \<lparr>X = 2, Y = 2\<rparr>\<rparr>,
           Final = 0\<rparr> = 0
   \<and> Final (applyOneThread (\<lambda>k i out ys ye xs xe. out)
        \<lparr>in_px = \<lparr>Pix = (\<lambda>p. \<lparr>R = 65535, G = 0, B = 0, A = 65535\<rparr>),
                    Rect = \<lparr>Min_pt = \<lparr>X = 0, Y = 0\<rparr>, Max_pt = \<lparr>X = 2, Y = 2\<rparr>\<rparr>\<rparr>,
           out_px = \<lparr>Pix = (\<lambda>p. \<lparr>R = 0, G = 0, B = 0, A = 0\<rparr>),
                     Rect = \<lparr>Min_pt = \<lparr>X = 0, Y = 0\<rparr>, Max_pt = \<lparr>X = 2, Y = 2\<rparr>\<rparr>\<rparr>,
           Bounds = \<lparr>Min_pt = \<lparr>X = 0, Y = 0\<rparr>, Max_pt = \<lparr>X = 2, Y = 2\<rparr>\<rparr>,
           Final = 0\<rparr>
        (CreateKernels [''G'', ''S'', ''G''])) = 1
   \<and> Final (applyOneThread (\<lambda>k i out ys ye xs xe. out)
        \<lparr>in_px = \<lparr>Pix = (\<lambda>p. \<lparr>R = 65535, G = 0, B = 0, A = 65535\<rparr>),
                    Rect = \<lparr>Min_pt = \<lparr>X = 0, Y = 0\<rparr>, Max_pt = \<lparr>X = 2, Y = 2\<rparr>\<rparr>\<rparr>,
           out_px = \<lparr>Pix = (\<lambda>p. \<lparr>R = 0, G = 0, B = 0, A = 0\<rparr>),
                     Rect = \<lparr>Min_pt = \<lparr>X = 0, Y = 0\<rparr>, Max_pt = \<lparr>X = 2, Y = 2\<rparr>\<rparr>\<rparr>,
           Bounds = \<lparr>Min_pt = \<lparr>X = 0, Y = 0\<rparr>, Max_pt = \<lparr>X = 2, Y = 2\<rparr>\<rparr>,
           Final = 0\<rparr>
        (take (Suc 1) (CreateKernels [''G'', ''S'', ''G'']))) = 0"
proof -
  let ?img = "\<lparr>in_px = \<lparr>Pix = (\<lambda>p. \<lparr>R = 65535, G = 0, B = 0, A = 65535\<rparr>),
                    Rect = \<lparr>Min_pt = \<lparr>X = 0, Y = 0\<rparr>, Max_pt = \<lparr>X = 2, Y = 2\<rparr>\<rparr>\<rparr>,
           out_px = \<lparr>Pix = (\<lambda>p. \<lparr>R = 0, G = 0, B = 0, A = 0\<rparr>),
                     Rect = \<lparr>Min_pt = \<lparr>X = 0, Y = 0\<rparr>, Max_pt = \<lparr>X = 2, Y = 2\<rparr>\<rparr>\<rparr>,
           Bounds = \<lparr>Min_pt = \<lparr>X = 0, Y = 0\<rparr>, Max_pt = \<lparr>X = 2, Y = 2\<rparr>\<rparr>,
           Final = 0\<rparr>"
  let ?conv = "\<lambda>k i out ys ye xs xe. out :: image_RGBA64"
  let ?ks = "CreateKernels [''G'', ''S'', ''G'']"
  have h: "Final ?img = 0 \<or> Final ?img = 1" by simp
  have len: "length ?ks = 3" by (simp add: CreateKernels_def)
  from C5_applyOneThread_flips [OF h, of ?conv ?ks]
  have a: "Final (applyOneThread ?conv ?img ?ks) = (Final ?img + int (length ?ks)) mod 2"
    and st: "\<forall>j < length ?ks. Final (applyOneThread ?conv ?img (take (Suc j) ?ks)) =
              1 - Final (applyOneThread ?conv ?img (take j ?ks))"
    by blast+
  have s0: "Final (applyOneThread ?conv ?img (take (Suc 0) ?ks)) =
              1 - Final (applyOneThread ?conv ?img (take 0 ?ks))"
    using st len by simp
  have s1: "Final (applyOneThread ?conv ?img (take (Suc 1) ?ks)) =
              1 - Final (applyOneThread ?conv ?img (take 1 ?ks))"
    using st len by simp
  have "Final (applyOneThread ?conv ?img (take (Suc 1) ?ks)) = 0"
    unfolding s1 using s0 by simp
  then show ?thesis
    using a len by simp
qed


section \<open>C8: grayscale of a red pixel\<close>

lemma Grayscale_pixel_red:
  "Grayscale_pixel \<lparr>R = 65535, G = 0, B = 0, A = 65535\<rparr>
     = \<lparr>R = 21845, G = 21845, B = 21845, A = 65535\<rparr>"
  by (simp add: Grayscale_pixel_def RGBA_def clamp_def)

lemma Rect_Set_px [simp]: "Rect (Set_px p x y c) = Rect p"
  by (simp add: Set_px_def)

lemma Pix_Set_px:
  "Pix (Set_px p x y c) q = (if q = (x, y) \<and> In_rect x y (Rect p) then c else Pix p q)"
  by (simp add: Set_px_def)

lemma Grayscale_cols_spec:
  "Rect (Grayscale_cols inp outp y x xe) = Rect outp
   \<and> (\<forall>x' y'. Pix (Grayscale_cols inp outp y x xe) (x', y') =
         (if y' = y \<and> x \<le> x' \<and> x' < xe \<and> In_rect x' y' (Rect outp)
          then Grayscale_pixel (At inp x' y') else Pix outp (x', y')))"
proof (induction inp outp y x xe rule: Grayscale_cols.induct)
  case (1 inp outp y x xe)
  show ?case
  proof (cases "x < xe")
    case False
    then show ?thesis by (subst (1 2) Grayscale_cols.simps) auto
  next
    case True
    let ?o = "Set_px outp x y (Grayscale_pixel (At inp x y))"
    have u: "Grayscale_cols inp outp y x xe = Grayscale_cols inp ?o y (x + 1) xe"
      using True by (subst Grayscale_cols.simps) simp
    from "1.IH" [OF True]
    have r: "Rect (Grayscale_cols inp ?o y (x + 1) xe) = Rect ?o"
      and p: "\<And>x' y'. Pix (Grayscale_cols inp ?o y (x + 1) xe) (x', y') =
         (if y' = y \<and> x + 1 \<le> x' \<and> x' < xe \<and> In_rect x' y' (Rect ?o)
          then Grayscale_pixel (At inp x' y') else Pix ?o (x', y'))"
      by blast+
    have "Pix (Grayscale_cols inp ?o y (x + 1) xe) (x', y') =
         (if y' = y \<and> x \<le> x' \<and> x' < xe \<and> In_rect x' y' (Rect outp)
          then Grayscale_pixel (At inp x' y') else Pix outp (x', y'))" for x' y'
    proof (cases "x' = x")
      case True
      then show ?thesis using p [of x' y'] \<open>x < xe\<close> by (auto simp: Pix_Set_px)
    next
      case False
      then have "(x + 1 \<le> x') = (x \<le> x')" by auto
      then show ?thesis using p [of x' y'] False by (auto simp: Pix_Set_px)
    qed
    then show ?thesis
      unfolding u using r by simp
  qed
qed

lemma Grayscale_rows_spec:
  "Rect (Grayscale_rows inp outp y ye xs xe) = Rect outp
   \<and> (\<forall>x' y'. Pix (Grayscale_rows inp outp y ye xs xe) (x', y') =
         (if y \<le> y' \<and> y' < ye \<and> xs \<le> x' \<and> x' < xe \<and> In_rect x' y' (Rect outp)
          then Grayscale_pixel (At inp x' y') else Pix outp (x', y')))"
proof (induction inp outp y ye xs xe rule: Grayscale_rows.induct)
  case (1 inp outp y ye xs xe)
  show ?case
  proof (cases "y < ye")
    case False
    then show ?thesis by (subst (1 2) Grayscale_rows.simps) auto
  next
    case True
    let ?o = "Grayscale_cols inp outp y xs xe"
    have u: "Grayscale_rows inp outp y ye xs xe = Grayscale_rows inp ?o (y + 1) ye xs xe"
      using True by (subst Grayscale_rows.simps) simp
    have ro: "Rect ?o = Rect outp"
      and po: "\<And>x' y'. Pix ?o (x', y') =
         (if y' = y \<and> xs \<le> x' \<and> x' < xe \<and> In_rect x' y' (Rect outp)
          then Grayscale_pixel (At inp x' y') else Pix outp (x', y'))"
      using Grayscale_cols_spec [of inp outp y xs xe] by blast+
    from "1.IH" [OF True]
    have r: "Rect (Grayscale_rows inp ?o (y + 1) ye xs xe) = Rect ?o"
      and p: "\<And>x' y'. Pix (Grayscale_rows inp ?o (y + 1) ye xs xe) (x', y') =
         (if y + 1 \<le> y' \<and> y' < ye \<and> xs \<le> x' \<and> x' < xe \<and> In_rect x' y' (Rect ?o)
          then Grayscale_pixel (At inp x' y') else Pix ?o (x', y'))"
      by blast+
    have "Pix (Grayscale_rows inp ?o (y + 1) ye xs xe) (x', y') =
         (if y \<le> y' \<and> y' < ye \<and> xs \<le> x' \<and> x' < xe \<and> In_rect x' y' (Rect outp)
          then Grayscale_pixel (At inp x' y') else Pix outp (x', y'))" for x' y'
    proof (cases "y' = y")
      case True
      then show ?thesis using p [of x' y'] po [of x' y'] ro \<open>y < ye\<close> by auto
    next
      case False
      then have "(y + 1 \<le> y') = (y \<le> y')" by auto
      then show ?thesis using p [of x' y'] po [of x' y'] ro False by auto
    qed
    then show ?thesis
      unfolding u using r ro by simp
  qed
qed

lemma At_Grayscale:
  assumes "In_rect x y (Rect inp)" "Rect outp = Rect inp"
  shows "At (Grayscale inp outp (Y (Min_pt (Rect inp))) (Y (Max_pt (Rect inp)))
               (X (Min_pt (Rect inp))) (X (Max_pt (Rect inp)))) x y
           = Grayscale_pixel (At inp x y)"
  using assms Grayscale_rows_spec [of inp outp "Y (Min_pt (Rect inp))" "Y (Max_pt (Rect inp))"
      "X (Min_pt (Rect inp))" "X (Max_pt (Rect inp))"]
  by (simp add: Grayscale_def At_def In_rect_def)

text \<open>
  Claim C8.  The grayscale effect maps the pixel \<open>(65535, 0, 0, 65535)\<close> to
  \<open>(21845, 21845, 21845, 65535)\<close>.  Hence for an image as \<open>Load\<close> leaves it (\<open>Final = 0\<close>,
  both buffers on the image's bounds) whose pixels are all that red, processing the effects
  list \<open>["G"]\<close> leaves every pixel of the buffer that \<open>Save\<close> encodes at
  \<open>R = G = B = 21845\<close>, \<open>A = 65535\<close>, whatever the convolution is.
\<close>

theorem C8_grayscale_of_red:
  "Grayscale_pixel \<lparr>R = 65535, G = 0, B = 0, A = 65535\<rparr>
     = \<lparr>R = 21845, G = 21845, B = 21845, A = 65535\<rparr>
   \<and> (Final img = 0 \<and> Rect (in_px img) = Bounds img \<and> Rect (out_px img) = Bounds img
      \<and> (\<forall>x y. In_rect x y (Bounds img) \<longrightarrow>
            At (in_px img) x y = \<lparr>R = 65535, G = 0, B = 0, A = 65535\<rparr>)
      \<longrightarrow> (\<forall>x y. In_rect x y (Bounds img) \<longrightarrow>
            At (Save_pixels (applyOneThread conv img (CreateKernels [''G'']))) x y
              = \<lparr>R = 21845, G = 21845, B = 21845, A = 65535\<rparr>))"
proof (intro conjI impI allI)
  show "Grayscale_pixel \<lparr>R = 65535, G = 0, B = 0, A = 65535\<rparr>
     = \<lparr>R = 21845, G = 21845, B = 21845, A = 65535\<rparr>"
    by (rule Grayscale_pixel_red)
next
  fix x y
  assume h: "Final img = 0 \<and> Rect (in_px img) = Bounds img \<and> Rect (out_px img) = Bounds img
      \<and> (\<forall>x y. In_rect x y (Bounds img) \<longrightarrow>
            At (in_px img) x y = \<lparr>R = 65535, G = 0, B = 0, A = 65535\<rparr>)"
    and i: "In_rect x y (Bounds img)"
  let ?g = "Grayscale (in_px img) (out_px img) (Y (Min_pt (Rect (in_px img))))
              (Y (Max_pt (Rect (in_px img)))) (X (Min_pt (Rect (in_px img))))
              (X (Max_pt (Rect (in_px img))))"
  have k: "CreateKernels [''G''] = [None]" by (simp add: CreateKernels_def NewKernel_def)
  have a: "ApplyEffect conv img None = img\<lparr>out_px := ?g\<rparr>"
    using h by (simp add: ApplyEffect_def GetInputOutputPixels_def put_output_def Let_def)
  have s: "Save_pixels (applyOneThread conv img (CreateKernels [''G''])) = ?g"
    using h by (simp add: k a Let_def Save_pixels_def wrap64_def)
  have "At ?g x y = Grayscale_pixel (At (in_px img) x y)"
    using h i by (intro At_Grayscale) simp_all
  also have "\<dots> = \<lparr>R = 21845, G = 21845, B = 21845, A = 65535\<rparr>"
    using h i by (simp add: Grayscale_pixel_red)
  finally show "At (Save_pixels (applyOneThread conv img (CreateKernels [''G'']))) x y
              = \<lparr>R = 21845, G = 21845, B = 21845, A = 65535\<rparr>"
    unfolding s .
qed


theorem C8_grayscale_of_red_witness:
  "Final \<lparr>in_px = \<lparr>Pix = (\<lambda>p. \<lparr>R = 65535, G = 0, B = 0, A = 65535\<rparr>),
                    Rect = \<lparr>Min_pt = \<lparr>X = 0, Y = 0\<rparr>, Max_pt = \<lparr>X = 16, Y = 16\<rparr>\<rparr>\<rparr>,
           out_px = \<lparr>Pix = (\<lambda>p. \<lparr>R = 0, G = 0, B = 0, A = 0\<rparr>),
                     Rect = \<lparr>Min_pt = \<lparr>X = 0, Y = 0\<rparr>, Max_pt = \<lparr>X = 16, Y = 16\<rparr>\<rparr>\<rparr>,
           Bounds = \<lparr>Min_pt = \<lparr>X = 0, Y = 0\<rparr>, Max_pt = \<lparr>X = 16, Y = 16\<rparr>\<rparr>,
           Final = 0\<rparr> = 0
   \<and> In_rect 3 15 \<lparr>Min_pt = \<lparr>X = 0, Y = 0\<rparr>, Max_pt = \<lparr>X = 16, Y = 16\<rparr>\<rparr>
   \<and> At (Save_pixels (applyOneThread (\<lambda>k i out ys ye xs xe. out)
        \<lparr>in_px = \<lparr>Pix = (\<lambda>p. \<lparr>R = 65535, G = 0, B = 0, A = 65535\<rparr>),
                    Rect = \<lparr>Min_pt = \<lparr>X = 0, Y = 0\<rparr>, Max_pt = \<lparr>X = 16, Y = 16\<rparr>\<rparr>\<rparr>,
           out_px = \<lparr>Pix = (\<lambda>p. \<lparr>R = 0, G = 0, B = 0, A = 0\<rparr>),
                     Rect = \<lparr>Min_pt = \<lparr>X = 0, Y = 0\<rparr>, Max_pt = \<lparr>X = 16, Y = 16\<rparr>\<rparr>\<rparr>,
           Bounds = \<lparr>Min_pt = \<lparr>X = 0, Y = 0\<rparr>, Max_pt = \<lparr>X = 16, Y = 16\<rparr>\<rparr>,
           Final = 0\<rparr>
        (CreateKernels [''G'']))) 3 15 = \<lparr>R = 21845, G = 21845, B = 21845, A = 65535\<rparr>"
proof -
  let ?r = "\<lparr>Min_pt = \<lparr>X = 0, Y = 0\<rparr>, Max_pt = \<lparr>X = 16, Y = 16\<rparr>\<rparr>"
  let ?img = "\<lparr>in_px = \<lparr>Pix = (\<lambda>p. \<lparr>R = 65535, G = 0, B = 0, A = 65535\<rparr>), Rect = ?r\<rparr>,
           out_px = \<lparr>Pix = (\<lambda>p. \<lparr>R = 0, G = 0, B = 0, A = 0\<rparr>), Rect = ?r\<rparr>,
           Bounds = ?r, Final = 0\<rparr>"
  let ?conv = "\<lambda>k i out ys ye xs xe. out :: image_RGBA64"
  have h: "Final ?img = 0 \<and> Rect (in_px ?img) = Bounds ?img \<and> Rect (out_px ?img) = Bounds ?img
      \<and> (\<forall>x y. In_rect x y (Bounds ?img) \<longrightarrow>
            At (in_px ?img) x y = \<lparr>R = 65535, G = 0, B = 0, A = 65535\<rparr>)"
    by (simp add: At_def)
  have i: "In_rect 3 15 (Bounds ?img)" by (simp add: In_rect_def)
  from C8_grayscale_of_red [of ?img ?conv] h
  have "\<forall>x y. In_rect x y (Bounds ?img) \<longrightarrow>
            At (Save_pixels (applyOneThread ?conv ?img (CreateKernels [''G'']))) x y
              = \<lparr>R = 21845, G = 21845, B = 21845, A = 65535\<rparr>"
    by blast
  then have "At (Save_pixels (applyOneThread ?conv ?img (CreateKernels [''G'']))) 3 15
              = \<lparr>R = 21845, G = 21845, B = 21845, A = 65535\<rparr>"
    using i by blast
  then show ?thesis using i by simp
qed

section \<open>C9: CreateTasks\<close>

lemma CreateTasks_loop_eq:
  "CreateTasks_loop InDir OutDir dirs ts err tq =
     (if err = ''EOF''
      then Return (tq @ concat (map (\<lambda>task. map (newTask InDir OutDir task) dirs) ts))
      else Exit 1)"
  by (induction ts arbitrary: tq) simp_all

text \<open>
  Claim C9.  \<open>CreateTasks\<close> ends the process with exit code 1 exactly when the effects file
  cannot be opened or the decoder fails with an error other than \<open>EOF\<close>; it exits with no
  other code; and when the decoder reaches \<open>EOF\<close> the parsing ends normally and the task
  list is returned, one task for every decoded entry and every data directory.
\<close>

theorem C9_CreateTasks_exit:
  "(CreateTasks InDir OutDir opened dataDirs = Exit 1) =
      ((\<exists>e. opened = Inl e) \<or> (\<exists>f. opened = Inr f \<and> final_err f \<noteq> ''EOF''))
   \<and> (\<forall>n. CreateTasks InDir OutDir opened dataDirs = Exit n \<longrightarrow> n = 1)
   \<and> (\<forall>f. opened = Inr f \<and> final_err f = ''EOF'' \<longrightarrow>
         CreateTasks InDir OutDir opened dataDirs =
           Return (concat (map (\<lambda>task. map (newTask InDir OutDir task) (Split dataDirs CHR ''+''))
                               (decoded f))))"
  by (cases opened) (auto simp: CreateTasks_def CreateTasks_loop_eq)

theorem C9_CreateTasks_witness:
  "CreateTasks ''in'' ''out''
      (Inr \<lparr>decoded = [\<lparr>InPath = ''a.png'', OutPath = ''b.png'', Effects = [''G'']\<rparr>],
            final_err = ''EOF''\<rparr>) ''s+b''
    = Return [\<lparr>InPath = ''in/s/a.png'', OutPath = ''out/s_b.png'', Effects = [''G'']\<rparr>,
              \<lparr>InPath = ''in/b/a.png'', OutPath = ''out/b_b.png'', Effects = [''G'']\<rparr>]
   \<and> CreateTasks ''in'' ''out''
      (Inr \<lparr>decoded = [], final_err = ''unexpected EOF''\<rparr>) ''s+b'' = Exit 1"
proof -
  let ?f = "\<lparr>decoded = [\<lparr>InPath = ''a.png'', OutPath = ''b.png'', Effects = [''G'']\<rparr>],
            final_err = ''EOF''\<rparr>"
  let ?g = "\<lparr>decoded = ([] :: Task list), final_err = ''unexpected EOF''\<rparr>"
  have a: "CreateTasks ''in'' ''out'' (Inr ?f) ''s+b'' =
           Return (concat (map (\<lambda>task. map (newTask ''in'' ''out'' task) (Split ''s+b'' CHR ''+''))
                               (decoded ?f)))"
    using C9_CreateTasks_exit [of "''in''" "''out''" "Inr ?f" "''s+b''"] by simp
  have b: "CreateTasks ''in'' ''out'' (Inr ?g) ''s+b'' = Exit 1"
    using C9_CreateTasks_exit [of "''in''" "''out''" "Inr ?g" "''s+b''"] by simp
  show ?thesis
    using a b by (simp add: newTask_def)
qed

section \<open>C4: the stop channels after the driver's last loop\<close>

text \<open>
  Claim C4 says that the driver's shutdown signals the channel \<open>done\<close> of every worker of
  every finished phase.  \<open>PrepareWorkers\<close> makes one channel for each worker, and the last
  loop closes \<open>pipeWorkers[i][0].done\<close> only, and only for the phases before the last.  For
  three phases with two workers each, the workers whose channel is closed when the loop
  ends are the first worker of phase 0 and the first worker of phase 1; the second worker of
  every phase and both workers of phase 2 are never told to stop.
\<close>

theorem C4_done_channels_after_shutdown:
  "(case RunPipeBSPWS_chunk 3 2 2 \<lparr>next_chan = 0, closed = []\<rparr> of
      Inl e \<Rightarrow> []
    | Inr (pipeWorkers, s) \<Rightarrow> map (map (signalled s)) pipeWorkers)
   = [[True, False], [True, False], [False, False]]"
  by code_simp


end
